theory Spec2Isabelle
  imports Complex_Main "HOL-Library.Sublist"
begin

section \<open>JavaScript values used by the dependency scanner\<close>

text \<open>
  The scanner is TypeScript. Its strings are sequences of UTF-16 code units, and
  \<open>length\<close>, \<open>substring\<close>, \<open>trim\<close> and the regular expressions (none has the
  flag \<open>u\<close>) work on code units. \<open>Ch c\<close> is the code unit with the code of the 8-bit
  character \<open>c\<close> (0 to 255) and \<open>U n\<close> the code unit \<open>n\<close>, for \<open>n\<close> from 256 on
  (a smaller \<open>n\<close> stands for no code unit; the definitions treat it as an ordinary
  character). \<open>asc\<close> embeds a literal text.

  The numbers are IEEE doubles; the code only compares them with constants and tests
  them for truthiness, so a number is a real value or one of the three special values.
\<close>

datatype jschar = Ch char | U nat

type_synonym jsstring = "jschar list"

definition asc :: "string \<Rightarrow> jsstring" where
  "asc s = map Ch s"

declare asc_def [simp]

datatype jsnum = Finite real | PosInf | NegInf | NaN

text \<open>\<open>n >= c\<close> for a finite constant \<open>c\<close>: every comparison with NaN is false.\<close>

fun num_ge :: "jsnum \<Rightarrow> real \<Rightarrow> bool" where
  "num_ge (Finite x) c = (c \<le> x)"
| "num_ge PosInf c = True"
| "num_ge NegInf c = False"
| "num_ge NaN c = False"

fun num_lt :: "jsnum \<Rightarrow> real \<Rightarrow> bool" where
  "num_lt (Finite x) c = (x < c)"
| "num_lt PosInf c = False"
| "num_lt NegInf c = True"
| "num_lt NaN c = False"

text \<open>A number is falsy when it is \<open>0\<close>, \<open>-0\<close> or NaN.\<close>

definition truthy_num :: "jsnum \<Rightarrow> bool" where
  "truthy_num n = (n \<noteq> Finite 0 \<and> n \<noteq> NaN)"

definition isNaN :: "jsnum \<Rightarrow> bool" where
  "isNaN n = (n = NaN)"

text \<open>
  The line terminators are LF, CR, U+2028 and U+2029. White space, as \<open>trim\<close> and the
  class \<open>\s\<close> take it, is the line terminators with TAB, VT, FF, the space, the
  no-break space U+00A0, U+FEFF and the other space separators of Unicode (U+1680,
  U+2000 to U+200A, U+202F, U+205F, U+3000).
\<close>

definition isLineTerminator :: "jschar \<Rightarrow> bool" where
  "isLineTerminator c =
     (case c of
        Ch a \<Rightarrow> a \<in> set [CHR 0x0A, CHR 0x0D]
      | U n \<Rightarrow> n \<in> set [0x2028, 0x2029])"

definition isWhitespace :: "jschar \<Rightarrow> bool" where
  "isWhitespace c =
     (case c of
        Ch a \<Rightarrow> a \<in> set [CHR 0x09, CHR 0x0A, CHR 0x0B, CHR 0x0C, CHR 0x0D, CHR 0x20, CHR 0xA0]
      | U n \<Rightarrow>
          n \<in> set [0x1680, 0x2000, 0x2001, 0x2002, 0x2003, 0x2004, 0x2005, 0x2006, 0x2007,
                   0x2008, 0x2009, 0x200A, 0x2028, 0x2029, 0x202F, 0x205F, 0x3000, 0xFEFF])"

definition trim :: "jsstring \<Rightarrow> jsstring" where
  "trim s = rev (dropWhile isWhitespace (rev (dropWhile isWhitespace s)))"

text \<open>
  \<open>toUpperCase\<close> and \<open>toLowerCase\<close> are modelled on the letters of ASCII only: every
  other code unit is left as it is.
\<close>

definition upperChar :: "jschar \<Rightarrow> jschar" where
  "upperChar c =
     (case map_of (zip (asc ''abcdefghijklmnopqrstuvwxyz'') (asc ''ABCDEFGHIJKLMNOPQRSTUVWXYZ'')) c of
        Some u \<Rightarrow> u
      | None \<Rightarrow> c)"

definition lowerChar :: "jschar \<Rightarrow> jschar" where
  "lowerChar c =
     (case map_of (zip (asc ''ABCDEFGHIJKLMNOPQRSTUVWXYZ'') (asc ''abcdefghijklmnopqrstuvwxyz'')) c of
        Some l \<Rightarrow> l
      | None \<Rightarrow> c)"

definition toUpperCase :: "jsstring \<Rightarrow> jsstring" where
  "toUpperCase s = map upperChar s"

definition toLowerCase :: "jsstring \<Rightarrow> jsstring" where
  "toLowerCase s = map lowerChar s"

text \<open>\<open>s.includes(t)\<close>: \<open>t\<close> occurs in \<open>s\<close> as a substring.\<close>

fun str_includes :: "jsstring \<Rightarrow> jsstring \<Rightarrow> bool" where
  "str_includes [] t = (t = [])"
| "str_includes (c # cs) t = (prefix t (c # cs) \<or> str_includes cs t)"

subsection \<open>Regular expressions\<close>

text \<open>
  The regular expressions of the scanner are sequences of quantified character classes,
  possibly anchored with \<open>^\<close> and \<open>$\<close>. A pattern is a list of atoms: a class
  (a predicate on characters) with a quantifier, \<open>One\<close> for a single character,
  \<open>Star\<close> and \<open>Plus\<close> for the greedy \<open>*\<close> and \<open>+\<close>, \<open>LazyStar\<close> for \<open>*?\<close>.

  \<open>rxmatch r eol s\<close> matches the pattern at the start of \<open>s\<close> as a backtracking
  matcher does: a greedy quantifier first takes a character and gives it back when the
  rest of the pattern fails, a lazy one first tries the rest of the pattern. \<open>eol\<close>
  says that the pattern ends with \<open>$\<close> (no multiline flag: the end of the input). The
  result is the text each atom consumed, in order, and the input left after the match:
  \<open>took c\<close> adds the character \<open>c\<close> to the text of the first atom of a match,
  \<open>skipped\<close> starts the text of a new atom.
\<close>

datatype quant = One | Star | Plus | LazyStar

type_synonym atom = "(jschar \<Rightarrow> bool) \<times> quant"

fun took :: "jschar \<Rightarrow> (jsstring list \<times> jsstring) option \<Rightarrow> (jsstring list \<times> jsstring) option" where
  "took c (Some (g # gs, rest)) = Some ((c # g) # gs, rest)"
| "took c (Some ([], rest)) = None"
| "took c None = None"

fun skipped :: "(jsstring list \<times> jsstring) option \<Rightarrow> (jsstring list \<times> jsstring) option" where
  "skipped (Some (gs, rest)) = Some ([] # gs, rest)"
| "skipped None = None"

fun rxmatch :: "atom list \<Rightarrow> bool \<Rightarrow> jsstring \<Rightarrow> (jsstring list \<times> jsstring) option" where
  "rxmatch [] eol s = (if eol \<and> s \<noteq> [] then None else Some ([], s))"
| "rxmatch ((p, One) # r) eol [] = None"
| "rxmatch ((p, One) # r) eol (c # cs) =
     (if p c then took c (skipped (rxmatch r eol cs)) else None)"
| "rxmatch ((p, Star) # r) eol [] = skipped (rxmatch r eol [])"
| "rxmatch ((p, Star) # r) eol (c # cs) =
     (case (if p c then took c (rxmatch ((p, Star) # r) eol cs) else None) of
        Some m \<Rightarrow> Some m
      | None \<Rightarrow> skipped (rxmatch r eol (c # cs)))"
| "rxmatch ((p, Plus) # r) eol [] = None"
| "rxmatch ((p, Plus) # r) eol (c # cs) =
     (if p c then took c (rxmatch ((p, Star) # r) eol cs) else None)"
| "rxmatch ((p, LazyStar) # r) eol [] = skipped (rxmatch r eol [])"
| "rxmatch ((p, LazyStar) # r) eol (c # cs) =
     (case skipped (rxmatch r eol (c # cs)) of
        Some m \<Rightarrow> Some m
      | None \<Rightarrow> if p c then took c (rxmatch ((p, LazyStar) # r) eol cs) else None)"

text \<open>
  The leftmost match: the matcher is tried at every position from the left, the end of
  the input included. The result is the text before the match, the text of each atom
  and the text after the match.
\<close>

fun rxfind :: "atom list \<Rightarrow> bool \<Rightarrow> jsstring \<Rightarrow> (jsstring \<times> jsstring list \<times> jsstring) option" where
  "rxfind r eol [] =
     (case rxmatch r eol [] of None \<Rightarrow> None | Some (gs, rest) \<Rightarrow> Some ([], gs, rest))"
| "rxfind r eol (c # cs) =
     (case rxmatch r eol (c # cs) of
        Some (gs, rest) \<Rightarrow> Some ([], gs, rest)
      | None \<Rightarrow>
          (case rxfind r eol cs of
             None \<Rightarrow> None
           | Some (pre, gs, rest) \<Rightarrow> Some (c # pre, gs, rest)))"

text \<open>A match consumes input: the rest is never longer, and shorter when the pattern
  starts with a single character.\<close>

lemma took_rest: "took c m = Some (gs, rest) \<Longrightarrow> \<exists>gs'. m = Some (gs', rest)"
  by (cases "(c, m)" rule: took.cases) auto

lemma skipped_rest: "skipped m = Some (gs, rest) \<Longrightarrow> \<exists>gs'. m = Some (gs', rest)"
  by (cases m) auto

lemma rxmatch_rest_le: "rxmatch r eol s = Some (gs, rest) \<Longrightarrow> length rest \<le> length s"
proof (induction r eol s arbitrary: gs rest rule: rxmatch.induct)
  case (1 eol s)
  then show ?case by (simp split: if_splits)
next
  case (3 p r eol c cs)
  then show ?case by (fastforce split: if_splits dest!: took_rest skipped_rest)
next
  case (4 p r eol)
  then show ?case by (fastforce dest!: skipped_rest)
next
  case (5 p r eol c cs)
  then show ?case
    by (cases "p c") (fastforce split: option.splits dest!: took_rest skipped_rest)+
next
  case (7 p r eol c cs)
  then show ?case by (fastforce split: if_splits dest!: took_rest skipped_rest)
next
  case (8 p r eol)
  then show ?case by (fastforce dest!: skipped_rest)
next
  case (9 p r eol c cs)
  then show ?case
    by (cases "p c") (fastforce split: option.splits dest!: took_rest skipped_rest)+
qed simp_all

lemma rxmatch_one_rest_lt:
  "rxmatch ((p, One) # r) eol s = Some (gs, rest) \<Longrightarrow> length rest < length s"
  by (cases s) (auto split: if_splits dest!: took_rest skipped_rest rxmatch_rest_le)

lemma rxfind_one_rest_lt:
  "rxfind ((p, One) # r) eol s = Some (pre, gs, rest) \<Longrightarrow> length rest < length s"
proof (induction s arbitrary: pre gs rest)
  case Nil
  then show ?case by simp
next
  case (Cons c cs)
  show ?case
  proof (cases "rxmatch ((p, One) # r) eol (c # cs)")
    case None
    then obtain pre' where "rxfind ((p, One) # r) eol cs = Some (pre', gs, rest)"
      using Cons.prems by (auto split: option.splits)
    then have "length rest < length cs" by (rule Cons.IH)
    then show ?thesis by simp
  next
    case (Some m)
    then have "rxmatch ((p, One) # r) eol (c # cs) = Some (gs, rest)"
      using Cons.prems by (cases m) (simp del: rxmatch.simps)
    then show ?thesis by (rule rxmatch_one_rest_lt)
  qed
qed

text \<open>\<open>re.exec(s)\<close> without the global flag; \<open>bol\<close> says that the pattern starts with \<open>^\<close>.\<close>

definition rxexec ::
  "bool \<Rightarrow> atom list \<Rightarrow> bool \<Rightarrow> jsstring \<Rightarrow> (jsstring \<times> jsstring list \<times> jsstring) option" where
  "rxexec bol r eol s =
     (if bol
      then (case rxmatch r eol s of None \<Rightarrow> None | Some (gs, rest) \<Rightarrow> Some ([], gs, rest))
      else rxfind r eol s)"

text \<open>\<open>s.replace(re, repl)\<close> without the global flag: the leftmost match is replaced.\<close>

definition str_replace :: "bool \<Rightarrow> atom list \<Rightarrow> bool \<Rightarrow> jsstring \<Rightarrow> jsstring \<Rightarrow> jsstring" where
  "str_replace bol r eol repl s =
     (case rxexec bol r eol s of None \<Rightarrow> s | Some (pre, gs, rest) \<Rightarrow> pre @ repl @ rest)"

text \<open>
  \<open>s.split(re)[0]\<close> for a pattern that matches no empty text: the input up to the
  leftmost match, the whole input when there is none.
\<close>

definition split_first :: "atom list \<Rightarrow> jsstring \<Rightarrow> jsstring" where
  "split_first r s = (case rxfind r False s of None \<Rightarrow> s | Some (pre, gs, rest) \<Rightarrow> pre)"

text \<open>Character classes: \<open>[...]\<close>, the dot, and a literal text.\<close>

definition oneOf :: "jsstring \<Rightarrow> jschar \<Rightarrow> bool" where
  "oneOf cs c = (c \<in> set cs)"

definition anyChar :: "jschar \<Rightarrow> bool" where
  "anyChar c = (\<not> isLineTerminator c)"

definition lit :: "jsstring \<Rightarrow> atom list" where
  "lit cs = map (\<lambda>c. (oneOf [c], One)) cs"

text \<open>
  A capture group spans consecutive atoms: \<open>rxgroups pieces gs\<close> joins the texts of
  the atoms of each piece of a pattern written as a list of pieces.
\<close>

fun chunks :: "nat list \<Rightarrow> jsstring list \<Rightarrow> jsstring list" where
  "chunks [] gs = []"
| "chunks (n # ns) gs = concat (take n gs) # chunks ns (drop n gs)"

definition rxgroups :: "atom list list \<Rightarrow> jsstring list \<Rightarrow> jsstring list" where
  "rxgroups pieces gs = chunks (map length pieces) gs"

text \<open>
  \<open>s.match(re)\<close> for a pattern anchored with \<open>^\<close>, given as pieces: the text of
  each piece, or \<open>None\<close> when the pattern does not match.
\<close>

definition rxmatch_groups :: "atom list list \<Rightarrow> jsstring \<Rightarrow> jsstring list option" where
  "rxmatch_groups pieces s =
     (case rxmatch (concat pieces) False s of
        None \<Rightarrow> None
      | Some (gs, rest) \<Rightarrow> Some (rxgroups pieces gs))"

text \<open>\<open>re.test(s)\<close> for a pattern that ends with \<open>$\<close>.\<close>

definition rxtest_eol :: "atom list \<Rightarrow> jsstring \<Rightarrow> bool" where
  "rxtest_eol r s = (rxfind r True s \<noteq> None)"

text \<open>A literal text under the flag \<open>i\<close>, and the class that holds every character.\<close>

definition litI :: "jsstring \<Rightarrow> atom list" where
  "litI cs = map (\<lambda>c. ((\<lambda>d. lowerChar d = lowerChar c), One)) cs"

definition anyCharOrBreak :: "jschar \<Rightarrow> bool" where
  "anyCharOrBreak c = True"

definition wordChar :: "jschar \<Rightarrow> bool" where
  "wordChar c =
     (c \<in> set (asc ''abcdefghijklmnopqrstuvwxyzABCDEFGHIJKLMNOPQRSTUVWXYZ0123456789_-''))"

definition versionChar :: "jschar \<Rightarrow> bool" where
  "versionChar c = (c \<in> set (asc ''0123456789.''))"

text \<open>\<open>s.split(d)\<close> for a one-character separator, and \<open>s.startsWith(t)\<close>.\<close>

fun splitOn :: "jschar \<Rightarrow> jsstring \<Rightarrow> jsstring list" where
  "splitOn d [] = [[]]"
| "splitOn d (c # cs) =
     (if c = d then [] # splitOn d cs
      else (case splitOn d cs of [] \<Rightarrow> [[c]] | l # ls \<Rightarrow> (c # l) # ls))"

definition startsWith :: "jsstring \<Rightarrow> jsstring \<Rightarrow> bool" where
  "startsWith s t = prefix t s"

text \<open>A natural number in decimal, as a template literal prints it.\<close>

definition digitChar :: "nat \<Rightarrow> jschar" where
  "digitChar d = (asc ''0123456789'') ! d"

function showNat :: "nat \<Rightarrow> jsstring" where
  "showNat n = (if n < 10 then [digitChar n] else showNat (n div 10) @ [digitChar (n mod 10)])"
  by pat_completeness auto
termination
  by (relation "measure id") auto

declare showNat.simps [simp del]

subsection \<open>Parsed JSON\<close>

text \<open>
  A value that \<open>JSON.parse\<close> returns. An object holds its own properties in the order
  in which \<open>Object.entries\<close> lists them; an array lists its elements under their
  indices.
\<close>

datatype json =
    JNull
  | JBool bool
  | JNumber jsnum
  | JString jsstring
  | JArray "json list"
  | JObject "(jsstring \<times> json) list"

text \<open>
  \<open>v.key\<close> for a key that strings, numbers and arrays do not define: \<open>None\<close> is
  \<open>undefined\<close>. (On \<open>null\<close> the read throws; the callers test for it first.)
\<close>

fun getProp :: "json \<Rightarrow> jsstring \<Rightarrow> json option" where
  "getProp (JObject kvs) key = map_of kvs key"
| "getProp v key = None"

fun objectEntries :: "json \<Rightarrow> (jsstring \<times> json) list" where
  "objectEntries (JObject kvs) = kvs"
| "objectEntries (JArray xs) = zip (map showNat [0..<length xs]) xs"
| "objectEntries v = []"

text \<open>\<open>v && typeof v === 'object'\<close> for a value that was read from parsed JSON.\<close>

fun isObjectValue :: "json \<Rightarrow> bool" where
  "isObjectValue (JObject kvs) = True"
| "isObjectValue (JArray xs) = True"
| "isObjectValue v = False"
section \<open>Data model (app/types/osv.ts)\<close>

datatype Severity = CRITICAL | HIGH | MEDIUM | LOW | UNKNOWN

record OsvSeverity =
  sev_type :: jsstring
  sev_score :: jsstring

record DatabaseSpecific =
  db_severity :: "jsstring option"
  db_cvss_score :: "jsnum option"

record OsvEvent =
  introduced :: "jsstring option"
  fixed :: "jsstring option"
  last_affected :: "jsstring option"
  limit :: "jsstring option"

record OsvAffectedRange =
  range_type :: jsstring
  events :: "OsvEvent list option"

record OsvPackage =
  pkg_ecosystem :: jsstring
  pkg_name :: jsstring

record OsvAffected =
  aff_package :: "OsvPackage option"
  aff_ranges :: "OsvAffectedRange list option"
  aff_versions :: "jsstring list option"
  aff_database_specific :: "DatabaseSpecific option"

record OsvReference =
  ref_type :: jsstring
  ref_url :: jsstring

record OsvApiVulnerability =
  api_id :: jsstring
  api_summary :: "jsstring option"
  api_details :: "jsstring option"
  api_aliases :: "jsstring list option"
  api_affected :: "OsvAffected list option"
  api_references :: "OsvReference list option"
  api_severity :: "OsvSeverity list option"
  api_database_specific :: "DatabaseSpecific option"

record PackageInfo =
  name :: jsstring
  version :: jsstring
  ecosystem :: jsstring
  manifestFile :: jsstring

record OsvVulnerability =
  vuln_id :: jsstring
  packageName :: jsstring
  vuln_version :: jsstring
  vuln_ecosystem :: jsstring
  severity :: Severity
  summary :: jsstring
  details :: jsstring
  aliases :: "jsstring list"
  references :: "OsvReference list"
  cvssScore :: "jsnum option"
  fixedVersions :: "jsstring list"
  vuln_manifestFile :: jsstring

section \<open>Manifest parsers (app/lib/security/manifest-parsers.ts)\<close>

text \<open>
  \<open>detectManifestType\<close> tests the lower-cased path against \<open>MANIFEST_PATTERNS\<close>
  (app/types/osv.ts). Every pattern is an alternation of literal file names, each
  anchored at the end and matched case-insensitively. The \<open>gradle\<close> pattern is not
  consulted.
\<close>

datatype OsvEcosystem = Npm | PyPI | Go | Crates_io | Maven | NuGet | Packagist | RubyGems | Hex

fun ecosystemName :: "OsvEcosystem \<Rightarrow> jsstring" where
  "ecosystemName Npm = (asc ''npm'')"
| "ecosystemName PyPI = (asc ''PyPI'')"
| "ecosystemName Go = (asc ''Go'')"
| "ecosystemName Crates_io = (asc ''crates.io'')"
| "ecosystemName Maven = (asc ''Maven'')"
| "ecosystemName NuGet = (asc ''NuGet'')"
| "ecosystemName Packagist = (asc ''Packagist'')"
| "ecosystemName RubyGems = (asc ''RubyGems'')"
| "ecosystemName Hex = (asc ''Hex'')"

definition endsWithAny :: "jsstring list \<Rightarrow> jsstring \<Rightarrow> bool" where
  "endsWithAny names s = list_ex (\<lambda>n. rxtest_eol (litI n) s) names"

definition detectManifestType :: "jsstring \<Rightarrow> OsvEcosystem option" where
  "detectManifestType filePath =
     (let fileName = toLowerCase filePath in
      if endsWithAny [(asc ''package.json'')] fileName then Some Npm
      else if endsWithAny [(asc ''requirements.txt''), (asc ''Pipfile''), (asc ''pyproject.toml'')] fileName
        then Some PyPI
      else if endsWithAny [(asc ''go.mod'')] fileName then Some Go
      else if endsWithAny [(asc ''Cargo.toml'')] fileName then Some Crates_io
      else if endsWithAny [(asc ''pom.xml'')] fileName then Some Maven
      else if endsWithAny [(asc ''packages.config''), (asc ''.csproj'')] fileName then Some NuGet
      else if endsWithAny [(asc ''composer.json'')] fileName then Some Packagist
      else if endsWithAny [(asc ''Gemfile'')] fileName then Some RubyGems
      else None)"

text \<open>
  \<open>cleanVersion\<close>: the chain of \<open>replace\<close> calls and the \<open>split\<close> that compute
  \<open>cleaned\<close>, then the wildcard branch. The patterns are, in order,
  \<open>/^[\^~>=<]+/\<close>, \<open>/\s*\|\|.*$/\<close>, \<open>/\s*-.*$/\<close>, \<open>/\s+/\<close>, and in the wildcard
  branch \<open>/[.*x].*$/\<close> and \<open>/\.$/\<close>.
\<close>

definition baseVersion :: "jsstring \<Rightarrow> jsstring" where
  "baseVersion ver =
     split_first [(isWhitespace, Plus)]
       (str_replace False [(isWhitespace, Star), (oneOf (asc ''-''), One), (anyChar, Star)] True []
         (str_replace False ((isWhitespace, Star) # lit (asc ''||'') @ [(anyChar, Star)]) True []
           (str_replace True [(oneOf (asc ''^~>=<''), Plus)] False [] (trim ver))))"

definition handleWildcards :: "jsstring \<Rightarrow> jsstring" where
  "handleWildcards cleaned =
     (if str_includes cleaned (asc ''*'') \<or> str_includes cleaned (asc ''x'')
      then str_replace False [(oneOf (asc ''.''), One)] True (asc ''.0'')
             (str_replace False [(oneOf (asc ''.*x''), One), (anyChar, Star)] True (asc ''0'') cleaned)
      else cleaned)"

text \<open>
  The parameter is declared a string. The guard \<open>!version\<close> also takes \<open>undefined\<close>,
  which is \<open>None\<close> here.
\<close>

definition cleanVersion :: "jsstring option \<Rightarrow> jsstring" where
  "cleanVersion arg =
     (case arg of
        None \<Rightarrow> []
      | Some ver \<Rightarrow> if ver = [] then [] else handleWildcards (baseVersion ver))"

text \<open>
  \<open>extractNpmPackages\<close>. \<open>JSON_parse\<close> is the builtin, taken as a parameter: \<open>None\<close>
  when it throws. Reading a property of \<open>null\<close> throws too; both land in the
  \<open>catch\<close>, which logs and leaves the list empty.
\<close>

fun npmEntries :: "jsstring \<Rightarrow> (jsstring \<times> json) list \<Rightarrow> PackageInfo list" where
  "npmEntries file [] = []"
| "npmEntries file ((nm, JString v) # rest) =
     (if cleanVersion (Some v) \<noteq> []
      then \<lparr>name = nm, version = cleanVersion (Some v), ecosystem = (asc ''npm''), manifestFile = file\<rparr>
             # npmEntries file rest
      else npmEntries file rest)"
| "npmEntries file ((nm, v) # rest) = npmEntries file rest"

definition npmSection :: "jsstring \<Rightarrow> json \<Rightarrow> jsstring \<Rightarrow> PackageInfo list" where
  "npmSection file packageJson key =
     (case getProp packageJson key of
        None \<Rightarrow> []
      | Some deps \<Rightarrow> if isObjectValue deps then npmEntries file (objectEntries deps) else [])"

definition extractNpmPackages ::
  "(jsstring \<Rightarrow> json option) \<Rightarrow> jsstring \<Rightarrow> jsstring \<Rightarrow> PackageInfo list" where
  "extractNpmPackages JSON_parse content file =
     (case JSON_parse content of
        None \<Rightarrow> []
      | Some JNull \<Rightarrow> []
      | Some packageJson \<Rightarrow>
          npmSection file packageJson (asc ''dependencies'')
            @ npmSection file packageJson (asc ''devDependencies''))"

text \<open>
  \<open>extractPythonPackages\<close>: one line at a time, with the pattern
  \<open>/^([a-zA-Z0-9_-]+)\s*([=><]+)\s*([0-9.]+)/\<close>.
\<close>

definition pythonLine :: "atom list list" where
  "pythonLine =
     [[(wordChar, Plus)], [(isWhitespace, Star)], [(oneOf (asc ''=><''), Plus)],
      [(isWhitespace, Star)], [(versionChar, Plus)]]"

fun pythonLines :: "jsstring \<Rightarrow> jsstring list \<Rightarrow> PackageInfo list" where
  "pythonLines file [] = []"
| "pythonLines file (line # rest) =
     (let trimmed = trim line in
      if trimmed = [] \<or> startsWith trimmed (asc ''#'') then pythonLines file rest
      else (case rxmatch_groups pythonLine trimmed of
              Some [g1, s1, g2, s2, g3] \<Rightarrow>
                if cleanVersion (Some g3) \<noteq> []
                then \<lparr>name = g1, version = cleanVersion (Some g3), ecosystem = (asc ''PyPI''),
                       manifestFile = file\<rparr> # pythonLines file rest
                else pythonLines file rest
            | _ \<Rightarrow> pythonLines file rest))"

definition extractPythonPackages :: "jsstring \<Rightarrow> jsstring \<Rightarrow> PackageInfo list" where
  "extractPythonPackages content file = pythonLines file (splitOn (Ch (CHR 0x0A)) content)"

text \<open>
  \<open>extractGoPackages\<close>, with \<open>/^(?:require\s+)?([a-zA-Z0-9._/-]+)\s+v([0-9.]+)/\<close>.
  The optional group is greedy: the matcher first tries the pattern with the group and,
  when that fails altogether, the pattern without it. The flag says whether the loop is
  inside a \<open>require (\<close> block.
\<close>

definition modulePathChar :: "jschar \<Rightarrow> bool" where
  "modulePathChar c =
     (c \<in> set (asc ''abcdefghijklmnopqrstuvwxyzABCDEFGHIJKLMNOPQRSTUVWXYZ0123456789._/-''))"

definition goModule :: "atom list list" where
  "goModule =
     [[(modulePathChar, Plus)], [(isWhitespace, Plus)], lit (asc ''v''), [(versionChar, Plus)]]"

definition goMatch :: "jsstring \<Rightarrow> jsstring list option" where
  "goMatch trimmed =
     (case rxmatch_groups ([lit (asc ''require''), [(isWhitespace, Plus)]] @ goModule) trimmed of
        Some gs \<Rightarrow> Some (drop 2 gs)
      | None \<Rightarrow> rxmatch_groups goModule trimmed)"

fun goLines :: "jsstring \<Rightarrow> bool \<Rightarrow> jsstring list \<Rightarrow> PackageInfo list" where
  "goLines file inRequireBlock [] = []"
| "goLines file inRequireBlock (line # rest) =
     (let trimmed = trim line in
      if trimmed = (asc ''require ('') then goLines file True rest
      else if trimmed = (asc '')'') then goLines file False rest
      else if trimmed = [] \<or> startsWith trimmed (asc ''//'') then goLines file inRequireBlock rest
      else (case goMatch trimmed of
              Some [g1, s1, v, g2] \<Rightarrow>
                if inRequireBlock \<or> startsWith trimmed (asc ''require'')
                then \<lparr>name = g1, version = g2, ecosystem = (asc ''Go''), manifestFile = file\<rparr>
                       # goLines file inRequireBlock rest
                else goLines file inRequireBlock rest
            | _ \<Rightarrow> goLines file inRequireBlock rest))"

definition extractGoPackages :: "jsstring \<Rightarrow> jsstring \<Rightarrow> PackageInfo list" where
  "extractGoPackages content file = goLines file False (splitOn (Ch (CHR 0x0A)) content)"

text \<open>
  \<open>extractRustPackages\<close>, with \<open>/^([a-zA-Z0-9_-]+)\s*=\s*"([0-9.]+)"/\<close> and then
  \<open>/^([a-zA-Z0-9_-]+)\s*=\s*\{.*version\s*=\s*"([0-9.]+)"/\<close>. The flag says whether
  the loop is inside a dependencies table.
\<close>

definition quotedVersion :: "atom list list" where
  "quotedVersion =
     [[(isWhitespace, Star)], lit (asc ''=''), [(isWhitespace, Star)], lit [Ch (CHR 0x22)],
      [(versionChar, Plus)], lit [Ch (CHR 0x22)]]"

definition rustPlain :: "atom list list" where
  "rustPlain = [(wordChar, Plus)] # quotedVersion"

definition rustTable :: "atom list list" where
  "rustTable =
     [[(wordChar, Plus)], [(isWhitespace, Star)], lit (asc ''=''), [(isWhitespace, Star)], lit (asc ''{''),
      [(anyChar, Star)], lit (asc ''version'')] @ quotedVersion"

definition rustMatch :: "jsstring \<Rightarrow> (jsstring \<times> jsstring) option" where
  "rustMatch trimmed =
     (case rxmatch_groups rustPlain trimmed of
        Some gs \<Rightarrow> Some (gs ! 0, gs ! 5)
      | None \<Rightarrow>
          (case rxmatch_groups rustTable trimmed of
             Some gs \<Rightarrow> Some (gs ! 0, gs ! 11)
           | None \<Rightarrow> None))"

fun rustLines :: "jsstring \<Rightarrow> bool \<Rightarrow> jsstring list \<Rightarrow> PackageInfo list" where
  "rustLines file inDependencies [] = []"
| "rustLines file inDependencies (line # rest) =
     (let trimmed = trim line in
      if trimmed = (asc ''[dependencies]'') \<or> trimmed = (asc ''[dev-dependencies]'')
        then rustLines file True rest
      else if startsWith trimmed (asc ''['') \<and> inDependencies then rustLines file False rest
      else if trimmed = [] \<or> startsWith trimmed (asc ''#'') \<or> \<not> inDependencies
        then rustLines file inDependencies rest
      else (case rustMatch trimmed of
              Some (g1, g2) \<Rightarrow>
                if cleanVersion (Some g2) \<noteq> []
                then \<lparr>name = g1, version = cleanVersion (Some g2), ecosystem = (asc ''crates.io''),
                       manifestFile = file\<rparr> # rustLines file inDependencies rest
                else rustLines file inDependencies rest
            | None \<Rightarrow> rustLines file inDependencies rest))"

definition extractRustPackages :: "jsstring \<Rightarrow> jsstring \<Rightarrow> PackageInfo list" where
  "extractRustPackages content file = rustLines file False (splitOn (Ch (CHR 0x0A)) content)"

text \<open>
  \<open>extractMavenPackages\<close>: the loop of \<open>exec\<close> calls of the global pattern
  \<open><dependency>[\s\S]*?<groupId>(.*?)</groupId>[\s\S]*?<artifactId>(.*?)</artifactId>[\s\S]*?<version>(.*?)</version>[\s\S]*?</dependency>\<close>.
  Each call searches from the end of the previous match.
\<close>

definition mavenDependency :: "atom list list" where
  "mavenDependency =
     [lit (asc ''<dependency>''), [(anyCharOrBreak, LazyStar)],
      lit (asc ''<groupId>''), [(anyChar, LazyStar)], lit (asc ''</groupId>''), [(anyCharOrBreak, LazyStar)],
      lit (asc ''<artifactId>''), [(anyChar, LazyStar)], lit (asc ''</artifactId>''),
      [(anyCharOrBreak, LazyStar)],
      lit (asc ''<version>''), [(anyChar, LazyStar)], lit (asc ''</version>''), [(anyCharOrBreak, LazyStar)],
      lit (asc ''</dependency>'')]"

lemma mavenDependency_starts:
  "concat mavenDependency = (oneOf (asc ''<''), One) # tl (concat mavenDependency)"
  by (simp add: mavenDependency_def lit_def)

function mavenMatches :: "jsstring \<Rightarrow> jsstring \<Rightarrow> PackageInfo list" where
  "mavenMatches file content =
     (case rxfind (concat mavenDependency) False content of
        None \<Rightarrow> []
      | Some (pre, gs, rest) \<Rightarrow>
          (if cleanVersion (Some (trim (rxgroups mavenDependency gs ! 11))) \<noteq> []
           then \<lparr>name = trim (rxgroups mavenDependency gs ! 3) @ (asc '':'')
                          @ trim (rxgroups mavenDependency gs ! 7),
                  version = cleanVersion (Some (trim (rxgroups mavenDependency gs ! 11))),
                  ecosystem = (asc ''Maven''), manifestFile = file\<rparr> # mavenMatches file rest
           else mavenMatches file rest))"
  by pat_completeness auto
termination
proof (relation "measure (\<lambda>(f, src). length src)")
  show "wf (measure (\<lambda>(f, src). length src))" by simp
next
  fix f src :: jsstring and x2 pre y gs rest
  assume "rxfind (concat mavenDependency) False src = Some x2"
    and "(pre, y) = x2" and "(gs, rest) = y"
  then have "rxfind ((oneOf (asc ''<''), One) # tl (concat mavenDependency)) False src
      = Some (pre, gs, rest)"
    using mavenDependency_starts by simp
  then have "length rest < length src" by (rule rxfind_one_rest_lt)
  then show "((f, rest), (f, src)) \<in> measure (\<lambda>(f, src). length src)"
    by simp
next
  fix f src :: jsstring and x2 pre y gs rest
  assume "rxfind (concat mavenDependency) False src = Some x2"
    and "(pre, y) = x2" and "(gs, rest) = y"
  then have "rxfind ((oneOf (asc ''<''), One) # tl (concat mavenDependency)) False src
      = Some (pre, gs, rest)"
    using mavenDependency_starts by simp
  then have "length rest < length src" by (rule rxfind_one_rest_lt)
  then show "((f, rest), (f, src)) \<in> measure (\<lambda>(f, src). length src)"
    by simp
qed

declare mavenMatches.simps [simp del]

definition extractMavenPackages :: "jsstring \<Rightarrow> jsstring \<Rightarrow> PackageInfo list" where
  "extractMavenPackages content file = mavenMatches file content"

text \<open>The dispatch on the detected ecosystem, and the loop over the files.\<close>

definition extractPackagesFromManifest ::
  "(jsstring \<Rightarrow> json option) \<Rightarrow> jsstring \<Rightarrow> jsstring \<Rightarrow> PackageInfo list \<times> OsvEcosystem option" where
  "extractPackagesFromManifest JSON_parse filePath content =
     (case detectManifestType filePath of
        None \<Rightarrow> ([], None)
      | Some Npm \<Rightarrow> (extractNpmPackages JSON_parse content filePath, Some Npm)
      | Some PyPI \<Rightarrow> (extractPythonPackages content filePath, Some PyPI)
      | Some Go \<Rightarrow> (extractGoPackages content filePath, Some Go)
      | Some Crates_io \<Rightarrow> (extractRustPackages content filePath, Some Crates_io)
      | Some Maven \<Rightarrow> (extractMavenPackages content filePath, Some Maven)
      | Some other \<Rightarrow> ([], Some other))"

record SourceFile =
  path :: jsstring
  content :: jsstring

fun extractAllPackages :: "(jsstring \<Rightarrow> json option) \<Rightarrow> SourceFile list \<Rightarrow> PackageInfo list" where
  "extractAllPackages JSON_parse [] = []"
| "extractAllPackages JSON_parse (file # files) =
     fst (extractPackagesFromManifest JSON_parse (path file) (content file))
       @ extractAllPackages JSON_parse files"

section \<open>Severity classifier (app/lib/security/osv-client.ts)\<close>

text \<open>\<open>vuln.database_specific?.cvss_score\<close> and \<open>vuln.database_specific?.severity\<close>.\<close>

definition dbCvssScore :: "OsvApiVulnerability \<Rightarrow> jsnum option" where
  "dbCvssScore vuln =
     (case api_database_specific vuln of None \<Rightarrow> None | Some d \<Rightarrow> db_cvss_score d)"

definition dbSeverity :: "OsvApiVulnerability \<Rightarrow> jsstring option" where
  "dbSeverity vuln =
     (case api_database_specific vuln of None \<Rightarrow> None | Some d \<Rightarrow> db_severity d)"

text \<open>
  The loop of \<open>getCvssScore\<close> over the severity entries. \<open>parseFloat\<close> is the
  JavaScript builtin, taken as a parameter.
\<close>

fun firstCvssScore :: "(jsstring \<Rightarrow> jsnum) \<Rightarrow> OsvSeverity list \<Rightarrow> jsnum option" where
  "firstCvssScore parseFloat [] = None"
| "firstCvssScore parseFloat (sev # rest) =
     (if str_includes (sev_type sev) (asc ''CVSS'') \<and> \<not> isNaN (parseFloat (sev_score sev))
      then Some (parseFloat (sev_score sev))
      else firstCvssScore parseFloat rest)"

definition getCvssScore :: "(jsstring \<Rightarrow> jsnum) \<Rightarrow> OsvApiVulnerability \<Rightarrow> jsnum option" where
  "getCvssScore parseFloat vuln =
     (case dbCvssScore vuln of
        Some n \<Rightarrow>
          if truthy_num n then Some n
          else (case api_severity vuln of
                  None \<Rightarrow> None
                | Some sevs \<Rightarrow> firstCvssScore parseFloat sevs)
      | None \<Rightarrow>
          (case api_severity vuln of
             None \<Rightarrow> None
           | Some sevs \<Rightarrow> firstCvssScore parseFloat sevs))"

text \<open>
  The chain of \<open>includes\<close> tests that \<open>mapOsvSeverity\<close> runs on an upper-cased
  string (written out twice in the source); \<open>None\<close> when no test fires and control
  falls through.
\<close>

definition severityOfText :: "jsstring \<Rightarrow> Severity option" where
  "severityOfText str =
     (if str_includes str (asc ''CRITICAL'') then Some CRITICAL
      else if str_includes str (asc ''HIGH'') then Some HIGH
      else if str_includes str (asc ''MEDIUM'') \<or> str_includes str (asc ''MODERATE'') then Some MEDIUM
      else if str_includes str (asc ''LOW'') then Some LOW
      else None)"

definition severityOfScore :: "jsnum \<Rightarrow> Severity" where
  "severityOfScore score =
     (if num_ge score 9.0 then CRITICAL
      else if num_ge score 7.0 then HIGH
      else if num_ge score 4.0 then MEDIUM
      else LOW)"

definition severityOfDatabase :: "OsvApiVulnerability \<Rightarrow> Severity" where
  "severityOfDatabase vuln =
     (case dbSeverity vuln of
        None \<Rightarrow> MEDIUM
      | Some d \<Rightarrow>
          if d = [] then MEDIUM
          else (case severityOfText (toUpperCase d) of Some r \<Rightarrow> r | None \<Rightarrow> MEDIUM))"

definition mapOsvSeverity :: "(jsstring \<Rightarrow> jsnum) \<Rightarrow> OsvApiVulnerability \<Rightarrow> Severity" where
  "mapOsvSeverity parseFloat vuln =
     (case getCvssScore parseFloat vuln of
        Some score \<Rightarrow> severityOfScore score
      | None \<Rightarrow>
          (case api_severity vuln of
             Some (s # rest) \<Rightarrow>
               (case severityOfText (toUpperCase (sev_type s)) of
                  Some r \<Rightarrow> r
                | None \<Rightarrow> severityOfDatabase vuln)
           | _ \<Rightarrow> severityOfDatabase vuln))"

section \<open>Conversion of a raw record (app/lib/security/osv-client.ts)\<close>

fun fixedOfEvents :: "OsvEvent list \<Rightarrow> jsstring list" where
  "fixedOfEvents [] = []"
| "fixedOfEvents (event # rest) =
     (case fixed event of
        None \<Rightarrow> fixedOfEvents rest
      | Some f \<Rightarrow> if f = [] then fixedOfEvents rest else f # fixedOfEvents rest)"

fun fixedOfRanges :: "OsvAffectedRange list \<Rightarrow> jsstring list" where
  "fixedOfRanges [] = []"
| "fixedOfRanges (rng # rest) =
     (case events rng of
        None \<Rightarrow> fixedOfRanges rest
      | Some evs \<Rightarrow> fixedOfEvents evs @ fixedOfRanges rest)"

definition extractFixedVersions :: "OsvAffectedRange list option \<Rightarrow> jsstring list" where
  "extractFixedVersions ranges = (case ranges of None \<Rightarrow> [] | Some rs \<Rightarrow> fixedOfRanges rs)"

text \<open>The loop of \<open>convertOsvVulnerability\<close> over the \<open>affected\<close> entries.\<close>

fun fixedOfAffected :: "jsstring \<Rightarrow> OsvAffected list \<Rightarrow> jsstring list" where
  "fixedOfAffected pkgName [] = []"
| "fixedOfAffected pkgName (a # rest) =
     (case aff_package a of
        None \<Rightarrow> fixedOfAffected pkgName rest
      | Some p \<Rightarrow>
          if pkg_name p = pkgName
          then extractFixedVersions (aff_ranges a) @ fixedOfAffected pkgName rest
          else fixedOfAffected pkgName rest)"

text \<open>
  \<open>[...new Set(xs)]\<close>: a set keeps its elements in the order of their first insertion.
\<close>

fun setAddAll :: "'a list \<Rightarrow> 'a list \<Rightarrow> 'a list" where
  "setAddAll seen [] = seen"
| "setAddAll seen (x # xs) = setAddAll (if x \<in> set seen then seen else seen @ [x]) xs"

definition uniqueValues :: "'a list \<Rightarrow> 'a list" where
  "uniqueValues xs = setAddAll [] xs"

text \<open>The summary: \<open>split(/[.\n]/)[0]\<close> of the trimmed details, cut at 200 characters.\<close>

definition firstSentenceSummary :: "jsstring \<Rightarrow> jsstring" where
  "firstSentenceSummary det =
     (let firstSentence = split_first [(oneOf [Ch (CHR ''.''), Ch (CHR 0x0A)], One)] (trim det) in
      if length firstSentence > 200 then take 200 firstSentence @ (asc ''...'') else firstSentence)"

definition summaryOf :: "OsvApiVulnerability \<Rightarrow> PackageInfo \<Rightarrow> jsstring" where
  "summaryOf apiVuln pkg =
     (let s0 = (case api_summary apiVuln of None \<Rightarrow> [] | Some s \<Rightarrow> trim s);
          s1 = (if s0 = []
                then (case api_details apiVuln of
                        None \<Rightarrow> s0
                      | Some d \<Rightarrow> if d = [] then s0 else firstSentenceSummary d)
                else s0)
      in if s1 = [] then (asc ''Security vulnerability in '') @ name pkg else s1)"

definition convertOsvVulnerability ::
  "(jsstring \<Rightarrow> jsnum) \<Rightarrow> OsvApiVulnerability \<Rightarrow> PackageInfo \<Rightarrow> OsvVulnerability" where
  "convertOsvVulnerability parseFloat apiVuln pkg =
     \<lparr>vuln_id = api_id apiVuln,
      packageName = name pkg,
      vuln_version = version pkg,
      vuln_ecosystem = ecosystem pkg,
      severity = mapOsvSeverity parseFloat apiVuln,
      summary = summaryOf apiVuln pkg,
      details = (case api_details apiVuln of None \<Rightarrow> [] | Some d \<Rightarrow> d),
      aliases = (case api_aliases apiVuln of None \<Rightarrow> [] | Some as \<Rightarrow> as),
      references = (case api_references apiVuln of None \<Rightarrow> [] | Some rs \<Rightarrow> rs),
      cvssScore = getCvssScore parseFloat apiVuln,
      fixedVersions =
        uniqueValues
          (case api_affected apiVuln of
             None \<Rightarrow> []
           | Some affs \<Rightarrow> fixedOfAffected (name pkg) affs),
      vuln_manifestFile = manifestFile pkg\<rparr>"

section \<open>The batched query (app/lib/security/osv-client.ts)\<close>

text \<open>
  The network is the only effect of the client. A scan keeps the history of what it
  did: the requests it sent and the delays it waited. The two endpoints are functions
  of that history, the last event being the request they answer: the same request can
  be answered differently the second time. A response is a failed \<open>fetch\<close> (with the
  message of the rejection) or a status with the result of reading the body as JSON
  of the declared type (\<open>Inl\<close> the message when that throws).

  The detail requests of one package are sent in the order of the list; the model
  answers each one before the next is sent.
\<close>

record OsvPackageQuery =
  query_ecosystem :: jsstring
  query_name :: jsstring
  query_version :: jsstring

datatype request = BatchQuery "OsvPackageQuery list" | VulnDetails jsstring

datatype event = Fetch request | Sleep nat

datatype 'a response = NetworkError jsstring | Response nat "jsstring + 'a"

type_synonym OsvBatchResponse = "OsvApiVulnerability list option list"

record Network =
  batchServer :: "event list \<Rightarrow> OsvBatchResponse response"
  vulnServer :: "event list \<Rightarrow> OsvApiVulnerability option response"

datatype exn = Error jsstring

type_synonym vulnerabilityMap = "jsstring \<Rightarrow> OsvApiVulnerability list option"

definition MAX_BATCH_SIZE :: nat where
  "MAX_BATCH_SIZE = 1000"

definition okStatus :: "nat \<Rightarrow> bool" where
  "okStatus status = (200 \<le> status \<and> status \<le> 299)"

definition fetchVulnerabilityDetails ::
  "Network \<Rightarrow> event list \<Rightarrow> jsstring \<Rightarrow> OsvApiVulnerability option \<times> event list" where
  "fetchVulnerabilityDetails net trace i =
     (case vulnServer net (trace @ [Fetch (VulnDetails i)]) of
        NetworkError msg \<Rightarrow> (None, trace @ [Fetch (VulnDetails i)])
      | Response status body \<Rightarrow>
          if \<not> okStatus status then (None, trace @ [Fetch (VulnDetails i)])
          else (case body of
                  Inl msg \<Rightarrow> (None, trace @ [Fetch (VulnDetails i)])
                | Inr v \<Rightarrow> (v, trace @ [Fetch (VulnDetails i)])))"

text \<open>\<open>Promise.all(result.vulns.map(...))\<close>: the full record, or the minimal one.\<close>

fun fetchAllDetails ::
  "Network \<Rightarrow> event list \<Rightarrow> OsvApiVulnerability list \<Rightarrow> OsvApiVulnerability list \<times> event list" where
  "fetchAllDetails net trace [] = ([], trace)"
| "fetchAllDetails net trace (vuln # rest) =
     (case fetchVulnerabilityDetails net trace (api_id vuln) of
        (fullDetails, trace1) \<Rightarrow>
          (case fetchAllDetails net trace1 rest of
             (fullVulns, trace2) \<Rightarrow>
               ((case fullDetails of None \<Rightarrow> vuln | Some full \<Rightarrow> full) # fullVulns, trace2)))"

definition packageKey :: "PackageInfo \<Rightarrow> jsstring" where
  "packageKey pkg = ecosystem pkg @ (asc '':'') @ name pkg @ (asc ''@'') @ version pkg"

text \<open>
  The loop over the packages of a batch and the results at the same indices (written
  out twice in the source, for the first response and for the retry). A result past the
  end of \<open>results\<close> is \<open>undefined\<close>.
\<close>

fun processResults ::
  "Network \<Rightarrow> vulnerabilityMap \<Rightarrow> event list \<Rightarrow> PackageInfo list \<Rightarrow> OsvBatchResponse
     \<Rightarrow> vulnerabilityMap \<times> event list" where
  "processResults net m trace [] results = (m, trace)"
| "processResults net m trace (pkg # batch) results =
     (case (case results of [] \<Rightarrow> None | result # others \<Rightarrow> result) of
        None \<Rightarrow> processResults net m trace batch (tl results)
      | Some vulns \<Rightarrow>
          if vulns = [] then processResults net m trace batch (tl results)
          else (case fetchAllDetails net trace vulns of
                  (fullVulns, trace1) \<Rightarrow>
                    processResults net (m(packageKey pkg \<mapsto> fullVulns)) trace1 batch
                      (tl results)))"

definition toQueries :: "PackageInfo list \<Rightarrow> OsvPackageQuery list" where
  "toQueries batch =
     map (\<lambda>pkg. \<lparr>query_ecosystem = ecosystem pkg, query_name = name pkg,
                 query_version = version pkg\<rparr>) batch"

text \<open>
  The body of the loop over the batches: the outcome (the exception thrown, or the
  map) and the history afterwards.
\<close>

definition queryBatch ::
  "Network \<Rightarrow> vulnerabilityMap \<Rightarrow> event list \<Rightarrow> PackageInfo list
     \<Rightarrow> (exn + vulnerabilityMap) \<times> event list" where
  "queryBatch net m trace batch =
     (let request = BatchQuery (toQueries batch);
          trace1 = trace @ [Fetch request] in
      case batchServer net trace1 of
        NetworkError msg \<Rightarrow> (Inl (Error msg), trace1)
      | Response status body \<Rightarrow>
          if \<not> okStatus status then
            (if status = 429 then
               (let trace2 = trace1 @ [Sleep 2000, Fetch request] in
                case batchServer net trace2 of
                  NetworkError msg \<Rightarrow> (Inl (Error msg), trace2)
                | Response retryStatus retryBody \<Rightarrow>
                    if \<not> okStatus retryStatus
                    then (Inl (Error ((asc ''OSV API failed after retry: '') @ showNat retryStatus)),
                          trace2)
                    else (case retryBody of
                            Inl msg \<Rightarrow> (Inl (Error msg), trace2)
                          | Inr results \<Rightarrow>
                              (case processResults net m trace2 batch results of
                                 (m1, trace3) \<Rightarrow> (Inr m1, trace3))))
             else (Inl (Error ((asc ''OSV API request failed: '') @ showNat status)), trace1))
          else (case body of
                  Inl msg \<Rightarrow> (Inl (Error msg), trace1)
                | Inr results \<Rightarrow>
                    (case processResults net m trace1 batch results of
                       (m1, trace2) \<Rightarrow> (Inr m1, trace2))))"

function splitBatches :: "'a list \<Rightarrow> 'a list list" where
  "splitBatches xs =
     (if xs = [] then [] else take MAX_BATCH_SIZE xs # splitBatches (drop MAX_BATCH_SIZE xs))"
  by pat_completeness auto
termination
  by (relation "measure length") (auto simp: MAX_BATCH_SIZE_def)

declare splitBatches.simps [simp del]

fun queryBatches ::
  "Network \<Rightarrow> vulnerabilityMap \<Rightarrow> event list \<Rightarrow> PackageInfo list list
     \<Rightarrow> (exn + vulnerabilityMap) \<times> event list" where
  "queryBatches net m trace [] = (Inr m, trace)"
| "queryBatches net m trace (batch # rest) =
     (case queryBatch net m trace batch of
        (Inl e, trace1) \<Rightarrow> (Inl e, trace1)
      | (Inr m1, trace1) \<Rightarrow> queryBatches net m1 trace1 rest)"

definition queryOsvBatch ::
  "Network \<Rightarrow> event list \<Rightarrow> PackageInfo list \<Rightarrow> (exn + vulnerabilityMap) \<times> event list" where
  "queryOsvBatch net trace packages = queryBatches net Map.empty trace (splitBatches packages)"

fun convertPackages ::
  "(jsstring \<Rightarrow> jsnum) \<Rightarrow> vulnerabilityMap \<Rightarrow> PackageInfo list \<Rightarrow> OsvVulnerability list" where
  "convertPackages parseFloat m [] = []"
| "convertPackages parseFloat m (pkg # rest) =
     (case m (packageKey pkg) of
        None \<Rightarrow> convertPackages parseFloat m rest
      | Some vulns \<Rightarrow>
          map (\<lambda>apiVuln. convertOsvVulnerability parseFloat apiVuln pkg) vulns
            @ convertPackages parseFloat m rest)"

definition scanPackages ::
  "(jsstring \<Rightarrow> jsnum) \<Rightarrow> Network \<Rightarrow> event list \<Rightarrow> PackageInfo list
     \<Rightarrow> (exn + OsvVulnerability list) \<times> event list" where
  "scanPackages parseFloat net trace packages =
     (if packages = [] then (Inr [], trace)
      else (case queryOsvBatch net trace packages of
              (Inl e, trace1) \<Rightarrow> (Inl e, trace1)
            | (Inr m, trace1) \<Rightarrow> (Inr (convertPackages parseFloat m packages), trace1)))"
section \<open>The scan action (app/routes/api.osv-scan.ts)\<close>

record Stats =
  total :: nat
  critical :: nat
  high :: nat
  medium :: nat
  low :: nat

record OsvScanResult =
  success :: bool
  vulnerabilities :: "OsvVulnerability list"
  stats :: Stats
  scannedFiles :: nat
  scannedPackages :: nat
  scanDuration :: int
  error :: "jsstring option"

definition calculateStats :: "OsvVulnerability list \<Rightarrow> Stats" where
  "calculateStats vs =
     \<lparr>total = length vs,
      critical = length (filter (\<lambda>v. severity v = CRITICAL) vs),
      high = length (filter (\<lambda>v. severity v = HIGH) vs),
      medium = length (filter (\<lambda>v. severity v = MEDIUM) vs),
      low = length (filter (\<lambda>v. severity v = LOW) vs)\<rparr>"

definition zeroStats :: Stats where
  "zeroStats = \<lparr>total = 0, critical = 0, high = 0, medium = 0, low = 0\<rparr>"

text \<open>What the action reads from its surroundings: the two builtins and the network.\<close>

record Runtime =
  env_parseFloat :: "jsstring \<Rightarrow> jsnum"
  env_JSON_parse :: "jsstring \<Rightarrow> json option"
  env_network :: Network

definition manifestFilesOf :: "SourceFile list \<Rightarrow> SourceFile list" where
  "manifestFilesOf files = filter (\<lambda>file. detectManifestType (path file) \<noteq> None) files"

text \<open>
  The action. The request body is \<open>Inl\<close> the message when reading it throws, else the
  value of \<open>files\<close> (\<open>None\<close> when it is missing or not an array). \<open>startTime\<close> is the
  first reading of the clock, \<open>endTime\<close> the reading made when the result is built.
  The result comes with its HTTP status and the history of the scan.
\<close>

definition action ::
  "Runtime \<Rightarrow> int \<Rightarrow> int \<Rightarrow> jsstring + SourceFile list option
     \<Rightarrow> (OsvScanResult \<times> nat) \<times> event list" where
  "action env startTime endTime body =
     (case body of
        Inl msg \<Rightarrow>
          ((\<lparr>success = False, vulnerabilities = [], stats = zeroStats, scannedFiles = 0,
             scannedPackages = 0, scanDuration = endTime - startTime,
             error = Some (if msg = [] then (asc ''Unknown error occurred during vulnerability scan'')
                           else msg)\<rparr>, 500), [])
      | Inr None \<Rightarrow>
          ((\<lparr>success = False, vulnerabilities = [], stats = zeroStats, scannedFiles = 0,
             scannedPackages = 0, scanDuration = 0,
             error = Some (asc ''No files provided for scanning'')\<rparr>, 400), [])
      | Inr (Some files) \<Rightarrow>
          if files = [] then
            ((\<lparr>success = False, vulnerabilities = [], stats = zeroStats, scannedFiles = 0,
               scannedPackages = 0, scanDuration = 0,
               error = Some (asc ''No files provided for scanning'')\<rparr>, 400), [])
          else if manifestFilesOf files = [] then
            ((\<lparr>success = False, vulnerabilities = [], stats = zeroStats, scannedFiles = 0,
               scannedPackages = 0, scanDuration = 0,
               error = Some ((asc ''No dependency manifest files found. Please add package.json, '')
                 @ (asc ''requirements.txt, go.mod, Cargo.toml, or other dependency files.''))\<rparr>,
              400), [])
          else if extractAllPackages (env_JSON_parse env) (manifestFilesOf files) = [] then
            ((\<lparr>success = True, vulnerabilities = [], stats = zeroStats,
               scannedFiles = length (manifestFilesOf files), scannedPackages = 0,
               scanDuration = endTime - startTime, error = None\<rparr>, 200), [])
          else
            (case scanPackages (env_parseFloat env) (env_network env) []
                    (extractAllPackages (env_JSON_parse env) (manifestFilesOf files)) of
               (Inl (Error msg), trace) \<Rightarrow>
                 ((\<lparr>success = False, vulnerabilities = [], stats = zeroStats, scannedFiles = 0,
                    scannedPackages = 0, scanDuration = endTime - startTime,
                    error = Some (if msg = []
                                  then (asc ''Unknown error occurred during vulnerability scan'')
                                  else msg)\<rparr>, 500), trace)
             | (Inr vs, trace) \<Rightarrow>
                 ((\<lparr>success = True, vulnerabilities = vs, stats = calculateStats vs,
                    scannedFiles = length (manifestFilesOf files),
                    scannedPackages =
                      length (extractAllPackages (env_JSON_parse env) (manifestFilesOf files)),
                    scanDuration = endTime - startTime, error = None\<rparr>, 200), trace)))"

section \<open>The version normalizer as the specification words it\<close>

text \<open>
  The steps of the specification, written as list functions: strip a leading run of
  constraint characters, drop everything from a marker onward, take the first
  white-space-delimited token. \<open>cleanSteps dash token\<close> composes them after \<open>trim\<close>;
  the text of the range dash and the last step are parameters.
\<close>

definition stripConstraints :: "jsstring \<Rightarrow> jsstring" where
  "stripConstraints s = dropWhile (oneOf (asc ''^~>=<'')) s"

fun dropFrom :: "jsstring \<Rightarrow> jsstring \<Rightarrow> jsstring" where
  "dropFrom needle [] = []"
| "dropFrom needle (c # cs) = (if prefix needle (c # cs) then [] else c # dropFrom needle cs)"

text \<open>
  The first white-space-delimited token of a text is its first run of characters that
  are not white space. \<open>beforeWhitespace\<close> is the text before the first white space:
  the same token when the text does not start with white space, and empty when it does.
\<close>

definition firstToken :: "jsstring \<Rightarrow> jsstring" where
  "firstToken s = takeWhile (\<lambda>c. \<not> isWhitespace c) (dropWhile isWhitespace s)"

definition beforeWhitespace :: "jsstring \<Rightarrow> jsstring" where
  "beforeWhitespace s = takeWhile (\<lambda>c. \<not> isWhitespace c) s"

definition cleanSteps :: "jsstring \<Rightarrow> (jsstring \<Rightarrow> jsstring) \<Rightarrow> jsstring \<Rightarrow> jsstring" where
  "cleanSteps dash token v =
     token (dropFrom dash (dropFrom (asc ''||'') (stripConstraints (trim v))))"

text \<open>
  A text without line terminators, and one without white space. \<open>markerFree\<close> says
  that neither \<open>||\<close> nor a dash occurs, \<open>hasWildcard\<close> that \<open>*\<close> or \<open>x\<close> does.
\<close>

definition noLineBreak :: "jsstring \<Rightarrow> bool" where
  "noLineBreak s = (\<forall>c\<in>set s. \<not> isLineTerminator c)"

definition wsFree :: "jsstring \<Rightarrow> bool" where
  "wsFree s = (\<forall>c\<in>set s. \<not> isWhitespace c)"

definition markerFree :: "jsstring \<Rightarrow> bool" where
  "markerFree s = (\<not> str_includes s (asc ''||'') \<and> \<not> str_includes s (asc ''-''))"

definition hasWildcard :: "jsstring \<Rightarrow> bool" where
  "hasWildcard s = (str_includes s (asc ''*'') \<or> str_includes s (asc ''x''))"

text \<open>
  The inputs on which a line terminator does not change the result: the trimmed input
  has no line terminator, or it has neither \<open>||\<close> nor a dash before its first white
  space, or the steps (with any dash, and the text before the first white space) end
  with a text that holds a wildcard.
\<close>

definition lineBreakSafe :: "jsstring \<Rightarrow> bool" where
  "lineBreakSafe v =
     (noLineBreak (trim v) \<or> markerFree (beforeWhitespace (trim v)) \<or>
      hasWildcard (cleanSteps (asc ''-'') beforeWhitespace v))"

text \<open>
  \<open>searchPrefix P s\<close> is the text before the leftmost position of \<open>s\<close> whose suffix
  satisfies \<open>P\<close> (all of \<open>s\<close> when there is none); \<open>barsFree\<close> says that \<open>||\<close>
  does not occur; \<open>cleaned\<close> collects what holds of the results of \<open>cleanVersion\<close>.
\<close>

fun searchPrefix :: "(jsstring \<Rightarrow> bool) \<Rightarrow> jsstring \<Rightarrow> jsstring" where
  "searchPrefix P [] = []"
| "searchPrefix P (c # cs) = (if P (c # cs) then [] else c # searchPrefix P cs)"

definition barsFree :: "jsstring \<Rightarrow> bool" where
  "barsFree s = (\<forall>t. suffix t s \<longrightarrow> \<not> prefix (asc ''||'') t)"

definition cleaned :: "jsstring \<Rightarrow> bool" where
  "cleaned c = (wsFree c \<and> barsFree c \<and>
     (\<forall>a\<in>set c. a \<noteq> Ch (CHR ''-'') \<and> a \<noteq> Ch (CHR ''*'') \<and> a \<noteq> Ch (CHR ''x'')) \<and>
     (c = [] \<or> \<not> oneOf (asc ''^~>=<'') (hd c)))"
section \<open>The conversion, the npm parser and the report as the specification words them\<close>

text \<open>
  The summary: the trimmed upstream summary; else the first sentence of the details, up
  to a period or a newline, cut at 200 characters with an ellipsis; else the
  synthesized text.
\<close>

definition firstSentence :: "jsstring \<Rightarrow> jsstring" where
  "firstSentence s = takeWhile (\<lambda>c. c \<noteq> Ch (CHR ''.'') \<and> c \<noteq> Ch (CHR 0x0A)) s"

definition ellipsis200 :: "jsstring \<Rightarrow> jsstring" where
  "ellipsis200 s = (if length s > 200 then take 200 s @ (asc ''...'') else s)"

definition summaryChoice :: "OsvApiVulnerability \<Rightarrow> PackageInfo \<Rightarrow> jsstring" where
  "summaryChoice apiVuln pkg =
     (if (case api_summary apiVuln of None \<Rightarrow> [] | Some s \<Rightarrow> trim s) \<noteq> []
      then (case api_summary apiVuln of None \<Rightarrow> [] | Some s \<Rightarrow> trim s)
      else if (case api_details apiVuln of
                 None \<Rightarrow> []
               | Some d \<Rightarrow> ellipsis200 (firstSentence (trim d))) \<noteq> []
      then (case api_details apiVuln of
              None \<Rightarrow> []
            | Some d \<Rightarrow> ellipsis200 (firstSentence (trim d)))
      else (asc ''Security vulnerability in '') @ name pkg)"

text \<open>
  The string-valued entries of the \<open>dependencies\<close> and \<open>devDependencies\<close> maps of a
  parsed package.json, and the record one entry becomes.
\<close>

fun stringEntries :: "(jsstring \<times> json) list \<Rightarrow> (jsstring \<times> jsstring) list" where
  "stringEntries [] = []"
| "stringEntries ((nm, JString v) # rest) = (nm, v) # stringEntries rest"
| "stringEntries ((nm, v) # rest) = stringEntries rest"

definition sectionEntries :: "json \<Rightarrow> jsstring \<Rightarrow> (jsstring \<times> json) list" where
  "sectionEntries packageJson key =
     (case getProp packageJson key of None \<Rightarrow> [] | Some deps \<Rightarrow> objectEntries deps)"

definition dependencyEntries :: "json \<Rightarrow> (jsstring \<times> jsstring) list" where
  "dependencyEntries packageJson =
     stringEntries (sectionEntries packageJson (asc ''dependencies''))
       @ stringEntries (sectionEntries packageJson (asc ''devDependencies''))"

definition npmPackage :: "jsstring \<Rightarrow> jsstring \<times> jsstring \<Rightarrow> PackageInfo" where
  "npmPackage file entry =
     \<lparr>name = fst entry, version = cleanVersion (Some (snd entry)), ecosystem = (asc ''npm''),
      manifestFile = file\<rparr>"

text \<open>The counters of a report agree with its list.\<close>

definition statsConsistent :: "OsvScanResult \<Rightarrow> bool" where
  "statsConsistent r =
     (total (stats r) = length (vulnerabilities r) \<and>
      total (stats r) = critical (stats r) + high (stats r) + medium (stats r) + low (stats r))"

text \<open>An event of the history that is a request for the details of one vulnerability.\<close>

fun isDetailFetch :: "event \<Rightarrow> bool" where
  "isDetailFetch (Fetch (VulnDetails i)) = True"
| "isDetailFetch e = False"

text \<open>The message of the action when no file is a manifest.\<close>

definition noManifestError :: jsstring where
  "noManifestError =
     (asc ''No dependency manifest files found. Please add package.json, '')
       @ (asc ''requirements.txt, go.mod, Cargo.toml, or other dependency files.'')"

section \<open>Sample inputs\<close>

text \<open>
  Concrete records, files and networks on which the definitions are evaluated: a raw
  vulnerability of \<open>lodash\<close> with a repeated fixed version, a parser that knows two
  package.json texts, a network that reports the vulnerability, and networks whose
  batch endpoint always fails with one status.
\<close>

text \<open>A record that carries only its identifier.\<close>

definition bareVulnerability :: "jsstring \<Rightarrow> OsvApiVulnerability" where
  "bareVulnerability i =
     \<lparr>api_id = i, api_summary = None, api_details = None, api_aliases = None,
      api_affected = None, api_references = None, api_severity = None,
      api_database_specific = None\<rparr>"

definition sampleEvent :: "jsstring \<Rightarrow> OsvEvent" where
  "sampleEvent v = \<lparr>introduced = None, fixed = Some v, last_affected = None, limit = None\<rparr>"

definition sampleAffected :: "jsstring \<Rightarrow> jsstring list \<Rightarrow> OsvAffected" where
  "sampleAffected nm vs =
     \<lparr>aff_package = Some \<lparr>pkg_ecosystem = (asc ''npm''), pkg_name = nm\<rparr>,
      aff_ranges = Some [\<lparr>range_type = (asc ''SEMVER''), events = Some (map sampleEvent vs)\<rparr>],
      aff_versions = None, aff_database_specific = None\<rparr>"

definition sampleVulnerability :: OsvApiVulnerability where
  "sampleVulnerability =
     (bareVulnerability (asc ''GHSA-35jh-r3h4-6jhm''))
       \<lparr>api_details := Some (asc '' Command injection in lodash. Upgrade to 4.17.21 or later.''),
        api_affected := Some [sampleAffected (asc ''lodash'') [(asc ''4.17.21''), (asc ''4.17.21'')],
                              sampleAffected (asc ''lodash-es'') [(asc ''4.17.22'')],
                              sampleAffected (asc ''lodash'') [(asc ''4.17.21''), (asc ''5.0.0'')]],
        api_database_specific := Some \<lparr>db_severity = Some (asc ''high''), db_cvss_score = None\<rparr>\<rparr>"

definition samplePackage :: PackageInfo where
  "samplePackage =
     \<lparr>name = (asc ''lodash''), version = (asc ''4.17.20''), ecosystem = (asc ''npm''),
      manifestFile = (asc ''package.json'')\<rparr>"

definition sampleParse :: "jsstring \<Rightarrow> json option" where
  "sampleParse src =
     (if src = (asc ''{deps}'')
      then Some (JObject
        [((asc ''name''), JString (asc ''demo'')),
         ((asc ''dependencies''), JObject [((asc ''lodash''), JString (asc ''^4.17.20'')), ((asc ''local''), JBool True)]),
         ((asc ''devDependencies''), JObject [((asc ''jest''), JString (asc ''~29.0.1''))])])
      else if src = (asc ''{}'') then Some (JObject [])
      else None)"

definition failingNetwork :: "nat \<Rightarrow> Network" where
  "failingNetwork status =
     \<lparr>batchServer = (\<lambda>trace. Response status (Inl (asc ''unavailable''))),
      vulnServer = (\<lambda>trace. NetworkError (asc ''unavailable''))\<rparr>"

definition sampleNetwork :: Network where
  "sampleNetwork =
     \<lparr>batchServer = (\<lambda>trace. Response 200 (Inr [Some [bareVulnerability (asc ''GHSA-35jh-r3h4-6jhm'')]])),
      vulnServer = (\<lambda>trace. Response 200 (Inr (Some sampleVulnerability)))\<rparr>"

definition sampleRuntime :: "Network \<Rightarrow> Runtime" where
  "sampleRuntime net =
     \<lparr>env_parseFloat = (\<lambda>s. NaN), env_JSON_parse = sampleParse, env_network = net\<rparr>"

definition sampleFile :: "jsstring \<Rightarrow> jsstring \<Rightarrow> SourceFile" where
  "sampleFile p c = \<lparr>path = p, content = c\<rparr>"

definition samplePackages :: "PackageInfo list" where
  "samplePackages =
     [\<lparr>name = (asc ''lodash''), version = (asc ''4.17.20''), ecosystem = (asc ''npm''),
        manifestFile = (asc ''package.json'')\<rparr>,
      \<lparr>name = (asc ''jest''), version = (asc ''29.0.1''), ecosystem = (asc ''npm''),
        manifestFile = (asc ''package.json'')\<rparr>]"

section \<open>Properties of the matcher and of the version normalizer\<close>

subsection \<open>The matcher on simple patterns\<close>

text \<open>
  A pattern that ends with \<open>$\<close> leaves no input; a greedy class alone takes the
  longest run; a greedy class before a character it excludes never gives back.
\<close>

lemma rxmatch_eol_rest: "rxmatch r True s = Some (gs, rest) \<Longrightarrow> rest = []"
  by (induction r "True" s arbitrary: gs rest rule: rxmatch.induct)
     (auto split: if_splits option.splits dest!: took_rest skipped_rest)

lemma rxmatch_star_class:
  "rxmatch [(p, Star)] False s = Some ([takeWhile p s], dropWhile p s)"
  by (induction s) auto

lemma rxmatch_plus_class:
  "rxmatch [(p, Plus)] False s =
     (if s \<noteq> [] \<and> p (hd s) then Some ([takeWhile p s], dropWhile p s) else None)"
  by (cases s) (auto simp: rxmatch_star_class)

lemma rxmatch_star_all_eol:
  "\<forall>c\<in>set s. p c \<Longrightarrow> rxmatch [(p, Star)] True s = Some ([s], [])"
  by (induction s) auto

lemma rxmatch_star_eol:
  "rxmatch [(p, Star)] True s = (if \<forall>c\<in>set s. p c then Some ([s], []) else None)"
  by (induction s) auto

lemma rxmatch_star_then_one:
  assumes "\<And>c. p c \<Longrightarrow> \<not> q c"
  shows "rxmatch ((p, Star) # (q, One) # r) eol s =
           (case rxmatch ((q, One) # r) eol (dropWhile p s) of
              None \<Rightarrow> None
            | Some (gs, rest) \<Rightarrow> Some (takeWhile p s # gs, rest))"
  using assms 
proof (induction s)
  case Nil
  then show ?case by (auto split: option.splits)
next
  case (Cons c cs)
  show ?case
  proof (cases "p c")
    case True
    then show ?thesis using Cons by (auto split: option.splits)
  next
    case False
    then show ?thesis by (auto split: option.splits)
  qed
qed

subsection \<open>Replacing the leftmost match of a pattern that ends with \<open>$\<close>\<close>

text \<open>
  Such a replacement keeps the text before the leftmost position at which the pattern
  matches: it is \<open>searchPrefix\<close> of the predicate the matcher decides.
\<close>

lemma rxfind_eol_Some:
  "rxfind r True s = Some (pre, gs, rest) \<Longrightarrow>
     rest = [] \<and> pre = searchPrefix (\<lambda>t. rxmatch r True t \<noteq> None) s"
  by (induction s arbitrary: pre gs rest)
     (auto split: option.splits dest: rxmatch_eol_rest)

lemma rxfind_eol_None:
  "rxfind r True s = None \<Longrightarrow> searchPrefix (\<lambda>t. rxmatch r True t \<noteq> None) s = s"
  by (induction s) (auto split: option.splits)

lemma rxfind_None_iff:
  "rxfind r eol s = None \<longleftrightarrow> (\<forall>t. suffix t s \<longrightarrow> rxmatch r eol t = None)"
  by (induction s) (auto split: option.splits simp: suffix_Cons)

lemma str_replace_eol_empty:
  "str_replace False r True [] s = searchPrefix (\<lambda>t. rxmatch r True t \<noteq> None) s"
  by (auto simp: str_replace_def rxexec_def split: option.splits
      dest: rxfind_eol_Some rxfind_eol_None)

lemma searchPrefix_cong:
  "(\<And>t. suffix t s \<Longrightarrow> P t = Q t) \<Longrightarrow> searchPrefix P s = searchPrefix Q s"
  by (induction s) (auto simp: suffix_Cons)

subsection \<open>The patterns of \<open>cleanVersion\<close>\<close>

text \<open>
  The dot matches no line terminator and \<open>$\<close> is the end of the input: \<open>||\<close> or a
  dash is matched only when no line terminator comes after it.
\<close>

lemma dropFrom_searchPrefix: "dropFrom needle s = searchPrefix (prefix needle) s"
  by (induction s) auto

lemma searchPrefix_hd:
  "searchPrefix (\<lambda>t. t \<noteq> [] \<and> q (hd t)) s = takeWhile (\<lambda>c. \<not> q c) s"
  by (induction s) auto

lemma dropFrom_single: "dropFrom [d] s = takeWhile (\<lambda>c. c \<noteq> d) s"
  by (induction s) auto

lemma dropFrom_dash: "dropFrom (asc ''-'') s = takeWhile (\<lambda>c. c \<noteq> Ch (CHR ''-'')) s"
  by (simp add: dropFrom_single)

lemma noLineBreak_suffix: "noLineBreak s \<Longrightarrow> suffix t s \<Longrightarrow> noLineBreak t"
  by (auto simp: noLineBreak_def dest: set_mono_suffix)

lemma noLineBreak_dropWhile: "noLineBreak s \<Longrightarrow> noLineBreak (dropWhile p s)"
  by (auto simp: noLineBreak_def dest: set_dropWhileD)

lemma noLineBreak_takeWhile: "noLineBreak s \<Longrightarrow> noLineBreak (takeWhile p s)"
  by (auto simp: noLineBreak_def dest: set_takeWhileD)

lemma noLineBreak_trim: "noLineBreak s \<Longrightarrow> noLineBreak (trim s)"
  by (auto simp: noLineBreak_def trim_def dest!: set_dropWhileD)

lemma noLineBreak_searchPrefix: "noLineBreak s \<Longrightarrow> noLineBreak (searchPrefix P s)"
  by (induction s) (auto simp: noLineBreak_def)

lemma strip_constraints_code:
  "str_replace True [(oneOf (asc ''^~>=<''), Plus)] False [] s = stripConstraints s"
proof (cases s)
  case Nil
  then show ?thesis by (simp add: str_replace_def rxexec_def stripConstraints_def)
next
  case (Cons c cs)
  then show ?thesis
    by (simp add: str_replace_def rxexec_def stripConstraints_def rxmatch_plus_class
        del: rxmatch.simps)
qed

lemma noLineBreak_Cons: "noLineBreak (c # cs) = (\<not> isLineTerminator c \<and> noLineBreak cs)"
  by (simp add: noLineBreak_def)

lemma match_bars:
  "(rxmatch [(oneOf (asc ''|''), One), (oneOf (asc ''|''), One), (anyChar, Star)] True u \<noteq> None)
     = (prefix (asc ''||'') u \<and> noLineBreak u)"
proof (cases u)
  case Nil
  then show ?thesis by simp
next
  case (Cons a u1)
  note u = this
  show ?thesis
  proof (cases u1)
    case Nil
    then show ?thesis using u by (simp add: oneOf_def)
  next
    case (Cons b u2)
    have "(\<forall>c\<in>set u2. anyChar c) = noLineBreak u2"
      by (simp add: noLineBreak_def anyChar_def)
    then show ?thesis using u Cons
      by (auto simp add: oneOf_def rxmatch_star_eol noLineBreak_Cons isLineTerminator_def
          simp del: rxmatch.simps(4,5))
  qed
qed

lemma match_hyphen:
  "(rxmatch [(oneOf (asc ''-''), One), (anyChar, Star)] True u \<noteq> None)
     = (prefix (asc ''-'') u \<and> noLineBreak u)"
proof (cases u)
  case Nil
  then show ?thesis by simp
next
  case (Cons a u1)
  have "(\<forall>c\<in>set u1. anyChar c) = noLineBreak u1"
    by (simp add: noLineBreak_def anyChar_def)
  then show ?thesis using Cons
    by (auto simp add: oneOf_def rxmatch_star_eol noLineBreak_Cons isLineTerminator_def
        simp del: rxmatch.simps(4,5))
qed

lemma star_then_one_matches:
  assumes "\<And>c. p c \<Longrightarrow> \<not> q c"
  shows "(rxmatch ((p, Star) # (q, One) # r) eol s \<noteq> None)
           = (rxmatch ((q, One) # r) eol (dropWhile p s) \<noteq> None)"
proof (cases "rxmatch ((q, One) # r) eol (dropWhile p s)")
  case None
  then show ?thesis using rxmatch_star_then_one [where p=p and q=q and r=r and eol=eol and s=s, OF assms] by (simp only: option.case)
next
  case (Some m)
  then show ?thesis using rxmatch_star_then_one [where p=p and q=q and r=r and eol=eol and s=s, OF assms]
    by (cases m) (simp only: option.case prod.case, simp)
qed

lemma match_or:
  "(rxmatch ((isWhitespace, Star) # lit (asc ''||'') @ [(anyChar, Star)]) True t \<noteq> None)
     = (prefix (asc ''||'') (dropWhile isWhitespace t) \<and> noLineBreak (dropWhile isWhitespace t))"
proof -
  have ws: "\<And>c. isWhitespace c \<Longrightarrow> \<not> oneOf (asc ''|'') c"
    by (auto simp: isWhitespace_def oneOf_def split: jschar.splits)
  have "lit (asc ''||'') @ [(anyChar, Star)]
      = (oneOf (asc ''|''), One) # (oneOf (asc ''|''), One) # [(anyChar, Star)]"
    by (simp add: lit_def)
  then show ?thesis
    using match_bars [of "dropWhile isWhitespace t"] star_then_one_matches [OF ws]
    by (simp only:)
qed

lemma match_dash:
  "(rxmatch [(isWhitespace, Star), (oneOf (asc ''-''), One), (anyChar, Star)] True t \<noteq> None)
     = (prefix (asc ''-'') (dropWhile isWhitespace t) \<and> noLineBreak (dropWhile isWhitespace t))"
proof -
  have ws: "\<And>c. isWhitespace c \<Longrightarrow> \<not> oneOf (asc ''-'') c"
    by (auto simp: isWhitespace_def oneOf_def split: jschar.splits)
  show ?thesis
    using match_hyphen [of "dropWhile isWhitespace t"] star_then_one_matches [OF ws]
    by (simp only:)
qed

subsection \<open>The code and the steps of the specification\<close>

text \<open>
  The code also drops the white space before \<open>||\<close> and before the dash. On a text
  without line terminators the results differ from those of \<open>dropFrom\<close> by trailing
  white space only, which the text before the first white space does not show.
\<close>

lemma searchPrefix_skip_run:
  assumes Q: "\<And>t. Q t \<Longrightarrow> t \<noteq> [] \<and> \<not> p (hd t)"
  shows "Q (dropWhile p s) \<Longrightarrow> searchPrefix Q s = takeWhile p s"
proof (induction s)
  case Nil
  then show ?case by simp
next
  case (Cons c cs)
  show ?case
  proof (cases "p c")
    case True
    then have "\<not> Q (c # cs)" using Q [of "c # cs"] by auto
    then show ?thesis using True Cons by simp
  next
    case False
    then show ?thesis using Cons by simp
  qed
qed

lemma searchPrefix_trailing:
  assumes Q: "\<And>t. Q t \<Longrightarrow> t \<noteq> [] \<and> \<not> p (hd t)"
  shows "\<exists>w. searchPrefix Q s = searchPrefix (\<lambda>t. Q (dropWhile p t)) s @ w \<and> (\<forall>c\<in>set w. p c)"
proof (induction s)
  case Nil
  then show ?case by simp
next
  case (Cons c cs)
  show ?case
  proof (cases "Q (dropWhile p (c # cs))")
    case True
    then have "searchPrefix Q (c # cs) = takeWhile p (c # cs)"
      using searchPrefix_skip_run [where Q=Q and p=p and s="c # cs"] Q by blast
    moreover have "\<forall>x\<in>set (takeWhile p (c # cs)). p x"
      by (auto dest: set_takeWhileD)
    ultimately show ?thesis using True by (simp del: takeWhile.simps dropWhile.simps)
  next
    case False
    then have "\<not> Q (c # cs)" using Q [of "c # cs"] by (cases "p c") auto
    then show ?thesis using False Cons by simp
  qed
qed

lemma cut_or_code:
  "str_replace False ((isWhitespace, Star) # lit (asc ''||'') @ [(anyChar, Star)]) True [] s
     = searchPrefix (\<lambda>t. prefix (asc ''||'') (dropWhile isWhitespace t)
                          \<and> noLineBreak (dropWhile isWhitespace t)) s"
  by (simp only: str_replace_eol_empty match_or)

lemma cut_dash_code:
  "str_replace False [(isWhitespace, Star), (oneOf (asc ''-''), One), (anyChar, Star)] True [] s
     = searchPrefix (\<lambda>t. prefix (asc ''-'') (dropWhile isWhitespace t)
                          \<and> noLineBreak (dropWhile isWhitespace t)) s"
  by (simp only: str_replace_eol_empty match_dash)

lemma cut_oneline:
  assumes "noLineBreak s"
  shows "searchPrefix (\<lambda>t. prefix m (dropWhile isWhitespace t)
                            \<and> noLineBreak (dropWhile isWhitespace t)) s
           = searchPrefix (\<lambda>t. prefix m (dropWhile isWhitespace t)) s"
proof (rule searchPrefix_cong)
  fix t assume "suffix t s"
  then have "noLineBreak t" using assms by (rule noLineBreak_suffix [rotated])
  then have "noLineBreak (dropWhile isWhitespace t)" by (rule noLineBreak_dropWhile)
  then show "(prefix m (dropWhile isWhitespace t) \<and> noLineBreak (dropWhile isWhitespace t))
      = prefix m (dropWhile isWhitespace t)" by simp
qed

lemma split_first_class:
  "split_first [(p, Plus)] s = takeWhile (\<lambda>c. \<not> p c) s"
  unfolding split_first_def
  by (induction s)
     (auto simp add: rxmatch_plus_class simp del: rxmatch.simps split: option.splits prod.splits)

lemma takeWhile_append_all:
  "\<forall>c\<in>set x. P c \<Longrightarrow> takeWhile P (x @ w) = x @ takeWhile P w"
  by (induction x) auto

lemma takeWhile_append_stop:
  "\<not> (\<forall>c\<in>set x. P c) \<Longrightarrow> takeWhile P (x @ w) = takeWhile P x"
  by (induction x) auto

lemma takeWhile_all: "\<forall>c\<in>set x. P c \<Longrightarrow> takeWhile P x = x"
  by (induction x) auto

lemma takeWhile_trailing:
  assumes "\<forall>c\<in>set w. \<not> P c"
  shows "takeWhile P (x @ w) = takeWhile P x"
proof (cases "\<forall>c\<in>set x. P c")
  case True
  have "takeWhile P w = []" using assms by (cases w) auto
  then show ?thesis using True by (simp only: takeWhile_append_all takeWhile_all append_Nil2)
next
  case False
  then show ?thesis by (rule takeWhile_append_stop)
qed

lemma beforeWhitespace_trailing:
  "beforeWhitespace (x @ w) = beforeWhitespace x" if "\<forall>c\<in>set w. isWhitespace c"
  unfolding beforeWhitespace_def using that by (intro takeWhile_trailing) simp

lemma dropFrom_trailing:
  assumes "\<forall>c\<in>set w. isWhitespace c"
  shows "\<exists>w'. dropFrom (asc ''-'') (x @ w) = dropFrom (asc ''-'') x @ w' \<and> (\<forall>c\<in>set w'. isWhitespace c)"
proof (cases "\<forall>c\<in>set x. c \<noteq> Ch (CHR ''-'')")
  case True
  then have "dropFrom (asc ''-'') (x @ w) = dropFrom (asc ''-'') x @ takeWhile (\<lambda>c. c \<noteq> Ch (CHR ''-'')) w"
    by (simp only: dropFrom_dash takeWhile_append_all takeWhile_all)
  moreover have "\<forall>c\<in>set (takeWhile (\<lambda>c. c \<noteq> Ch (CHR ''-'')) w). isWhitespace c"
    using assms by (auto dest: set_takeWhileD)
  ultimately show ?thesis
    by (intro exI [of _ "takeWhile (\<lambda>c. c \<noteq> Ch (CHR ''-'')) w"]) simp
next
  case False
  then have "takeWhile (\<lambda>c. c \<noteq> Ch (CHR ''-'')) (x @ w) = takeWhile (\<lambda>c. c \<noteq> Ch (CHR ''-'')) x"
    by (rule takeWhile_append_stop)
  then have "dropFrom (asc ''-'') (x @ w) = dropFrom (asc ''-'') x @ []"
    by (simp only: dropFrom_dash append_Nil2)
  then show ?thesis by (intro exI [of _ "[]"]) simp
qed

lemma bars_head: "prefix (asc ''||'') t \<Longrightarrow> t \<noteq> [] \<and> \<not> isWhitespace (hd t)"
  by (cases t) (auto simp add: isWhitespace_def)

lemma dash_head: "prefix (asc ''-'') t \<Longrightarrow> t \<noteq> [] \<and> \<not> isWhitespace (hd t)"
  by (cases t) (auto simp add: isWhitespace_def)

lemma dropFrom_or_code:
  "\<exists>w. dropFrom (asc ''||'') s = searchPrefix (\<lambda>t. prefix (asc ''||'') (dropWhile isWhitespace t)) s @ w
        \<and> (\<forall>c\<in>set w. isWhitespace c)"
  unfolding dropFrom_searchPrefix by (rule searchPrefix_trailing) (rule bars_head)

lemma dropFrom_dash_code:
  "\<exists>w. dropFrom (asc ''-'') s = searchPrefix (\<lambda>t. prefix (asc ''-'') (dropWhile isWhitespace t)) s @ w
        \<and> (\<forall>c\<in>set w. isWhitespace c)"
  unfolding dropFrom_searchPrefix by (rule searchPrefix_trailing) (rule dash_head)

lemma baseVersion_code:
  "baseVersion v =
     beforeWhitespace
       (searchPrefix (\<lambda>t. prefix (asc ''-'') (dropWhile isWhitespace t)
                            \<and> noLineBreak (dropWhile isWhitespace t))
         (searchPrefix (\<lambda>t. prefix (asc ''||'') (dropWhile isWhitespace t)
                              \<and> noLineBreak (dropWhile isWhitespace t))
           (stripConstraints (trim v))))"
  by (simp only: baseVersion_def strip_constraints_code cut_or_code cut_dash_code
      split_first_class beforeWhitespace_def)

text \<open>On a text without line terminators the two cuts are those of the steps.\<close>

lemma baseVersion_steps_oneline:
  assumes nls: "noLineBreak (stripConstraints (trim v))"
  shows "baseVersion v
           = beforeWhitespace (dropFrom (asc ''-'') (dropFrom (asc ''||'') (stripConstraints (trim v))))"
proof -
  let ?s = "stripConstraints (trim v)"
  let ?A = "searchPrefix (\<lambda>t. prefix (asc ''||'') (dropWhile isWhitespace t)) ?s"
  let ?B = "searchPrefix (\<lambda>t. prefix (asc ''-'') (dropWhile isWhitespace t)) ?A"
  have nlA: "noLineBreak ?A" using nls by (rule noLineBreak_searchPrefix)
  have code: "baseVersion v = beforeWhitespace ?B"
    by (simp only: baseVersion_code cut_oneline [OF nls] cut_oneline [OF nlA])
  obtain w1 where w1: "dropFrom (asc ''||'') ?s = ?A @ w1" "\<forall>c\<in>set w1. isWhitespace c"
    using dropFrom_or_code [of ?s] by (elim exE conjE)
  obtain w2 where w2: "dropFrom (asc ''-'') ?A = ?B @ w2" "\<forall>c\<in>set w2. isWhitespace c"
    using dropFrom_dash_code [of ?A] by (elim exE conjE)
  obtain w3 where w3: "dropFrom (asc ''-'') (?A @ w1) = dropFrom (asc ''-'') ?A @ w3"
      "\<forall>c\<in>set w3. isWhitespace c"
    using dropFrom_trailing [OF w1(2), of ?A] by (elim exE conjE)
  have "dropFrom (asc ''-'') (dropFrom (asc ''||'') ?s) = ?B @ (w2 @ w3)"
    by (simp only: w1(1) w3(1) w2(1) append_assoc)
  moreover have "\<forall>c\<in>set (w2 @ w3). isWhitespace c" using w2(2) w3(2) by (simp add: ball_Un)
  ultimately have
    "beforeWhitespace (dropFrom (asc ''-'') (dropFrom (asc ''||'') ?s)) = beforeWhitespace ?B"
    by (simp only: beforeWhitespace_trailing)
  then show ?thesis using code by (simp only:)
qed

text \<open>
  A cut that starts at \<open>||\<close> or at a dash, or at the white space before it, leaves the
  text before the first white space as it is when the marker does not occur there.
\<close>

lemma prefix_beforeWhitespace:
  assumes "wsFree m" "prefix m s"
  shows "prefix m (beforeWhitespace s)"
proof -
  from assms(2) obtain r where s: "s = m @ r" by (auto simp: prefix_def)
  have "\<forall>c\<in>set m. \<not> isWhitespace c" using assms(1) by (simp add: wsFree_def)
  then have "takeWhile (\<lambda>c. \<not> isWhitespace c) (m @ r) = m @ takeWhile (\<lambda>c. \<not> isWhitespace c) r"
    by (rule takeWhile_append_all)
  then show ?thesis unfolding beforeWhitespace_def s by simp
qed

lemma token_of_cut:
  assumes m: "wsFree m"
    and Q: "\<And>c cs. Q (c # cs) \<Longrightarrow> \<not> isWhitespace c \<Longrightarrow> prefix m (c # cs)"
  shows "\<not> str_includes (beforeWhitespace s) m \<Longrightarrow>
           beforeWhitespace (searchPrefix Q s) = beforeWhitespace s"
proof (induction s)
  case Nil
  then show ?case by simp
next
  case (Cons c cs)
  show ?case
  proof (cases "isWhitespace c")
    case True
    then show ?thesis by (simp add: beforeWhitespace_def)
  next
    case False
    then have bw: "beforeWhitespace (c # cs) = c # beforeWhitespace cs"
      by (simp add: beforeWhitespace_def)
    have "\<not> prefix m (beforeWhitespace (c # cs))" and rest: "\<not> str_includes (beforeWhitespace cs) m"
      using Cons.prems unfolding bw by simp_all
    then have "\<not> prefix m (c # cs)" using prefix_beforeWhitespace [OF m] by blast
    then have "\<not> Q (c # cs)" using Q False by blast
    then have "beforeWhitespace (searchPrefix Q (c # cs)) = c # beforeWhitespace (searchPrefix Q cs)"
      using False by (simp add: beforeWhitespace_def)
    then show ?thesis using Cons.IH [OF rest] bw by simp
  qed
qed

lemma wsFree_bars: "wsFree (asc ''||'')"
  by (simp add: wsFree_def isWhitespace_def)

lemma wsFree_dash: "wsFree (asc ''-'')"
  by (simp add: wsFree_def isWhitespace_def)

lemma cut_head:
  "prefix m (dropWhile isWhitespace (c # cs)) \<and> noLineBreak (dropWhile isWhitespace (c # cs)) \<Longrightarrow>
     \<not> isWhitespace c \<Longrightarrow> prefix m (c # cs)"
  by simp

lemma baseVersion_token:
  assumes "markerFree (beforeWhitespace (stripConstraints (trim v)))"
  shows "baseVersion v = beforeWhitespace (stripConstraints (trim v))"
proof -
  let ?s = "stripConstraints (trim v)"
  let ?O = "\<lambda>t. prefix (asc ''||'') (dropWhile isWhitespace t) \<and> noLineBreak (dropWhile isWhitespace t)"
  let ?D = "\<lambda>t. prefix (asc ''-'') (dropWhile isWhitespace t) \<and> noLineBreak (dropWhile isWhitespace t)"
  have o: "\<not> str_includes (beforeWhitespace ?s) (asc ''||'')"
    and d: "\<not> str_includes (beforeWhitespace ?s) (asc ''-'')"
    using assms unfolding markerFree_def by blast+
  have 1: "beforeWhitespace (searchPrefix ?O ?s) = beforeWhitespace ?s"
    using wsFree_bars cut_head o by (rule token_of_cut)
  have "\<not> str_includes (beforeWhitespace (searchPrefix ?O ?s)) (asc ''-'')"
    unfolding 1 by (rule d)
  with wsFree_dash cut_head
  have 2: "beforeWhitespace (searchPrefix ?D (searchPrefix ?O ?s))
      = beforeWhitespace (searchPrefix ?O ?s)"
    by (rule token_of_cut)
  show ?thesis by (simp only: baseVersion_code 1 2)
qed

lemma steps_token:
  assumes "markerFree (beforeWhitespace s)"
  shows "beforeWhitespace (dropFrom (asc ''-'') (dropFrom (asc ''||'') s)) = beforeWhitespace s"
proof -
  have o: "\<not> str_includes (beforeWhitespace s) (asc ''||'')"
    and d: "\<not> str_includes (beforeWhitespace s) (asc ''-'')"
    using assms unfolding markerFree_def by blast+
  have 1: "beforeWhitespace (searchPrefix (prefix (asc ''||'')) s) = beforeWhitespace s"
    using wsFree_bars _ o by (rule token_of_cut)
  have "\<not> str_includes (beforeWhitespace (searchPrefix (prefix (asc ''||'')) s)) (asc ''-'')"
    unfolding 1 by (rule d)
  with wsFree_dash _
  have 2: "beforeWhitespace (searchPrefix (prefix (asc ''-'')) (searchPrefix (prefix (asc ''||'')) s))
      = beforeWhitespace (searchPrefix (prefix (asc ''||'')) s)"
    by (rule token_of_cut)
  show ?thesis by (simp only: dropFrom_searchPrefix 1 2)
qed

text \<open>
  No constraint character is white space, so the hypothesis on the trimmed input
  holds of the text without its leading constraint characters too.
\<close>

lemma constraint_not_ws: "oneOf (asc ''^~>=<'') c \<Longrightarrow> \<not> isWhitespace c"
  by (auto simp: oneOf_def isWhitespace_def)

lemma markerFree_tl: "markerFree (c # s) \<Longrightarrow> markerFree s"
  by (simp add: markerFree_def)

lemma markerFree_strip:
  "markerFree (beforeWhitespace t) \<Longrightarrow> markerFree (beforeWhitespace (stripConstraints t))"
proof (induction t)
  case Nil
  then show ?case by (simp add: stripConstraints_def)
next
  case (Cons c cs)
  show ?case
  proof (cases "oneOf (asc ''^~>=<'') c")
    case True
    then have "beforeWhitespace (c # cs) = c # beforeWhitespace cs"
      using constraint_not_ws [OF True] by (simp add: beforeWhitespace_def)
    then have "markerFree (beforeWhitespace cs)" using Cons.prems markerFree_tl by simp
    then have "markerFree (beforeWhitespace (stripConstraints cs))" by (rule Cons.IH)
    moreover have "stripConstraints (c # cs) = stripConstraints cs"
      using True by (simp add: stripConstraints_def)
    ultimately show ?thesis by (simp only:)
  next
    case False
    then have "stripConstraints (c # cs) = c # cs" by (simp add: stripConstraints_def)
    then show ?thesis using Cons.prems by (simp only:)
  qed
qed

lemma safe_strip:
  assumes "noLineBreak t \<or> markerFree (beforeWhitespace t)"
  shows "noLineBreak (stripConstraints t) \<or> markerFree (beforeWhitespace (stripConstraints t))"
  using assms
proof
  assume "noLineBreak t"
  then have "noLineBreak (stripConstraints t)"
    unfolding stripConstraints_def by (rule noLineBreak_dropWhile)
  then show ?thesis ..
next
  assume "markerFree (beforeWhitespace t)"
  then have "markerFree (beforeWhitespace (stripConstraints t))" by (rule markerFree_strip)
  then show ?thesis ..
qed

lemma baseVersion_steps:
  assumes "noLineBreak (trim v) \<or> markerFree (beforeWhitespace (trim v))"
  shows "baseVersion v
           = beforeWhitespace (dropFrom (asc ''-'') (dropFrom (asc ''||'') (stripConstraints (trim v))))"
proof -
  from assms have "noLineBreak (stripConstraints (trim v))
      \<or> markerFree (beforeWhitespace (stripConstraints (trim v)))"
    by (rule safe_strip)
  then show ?thesis
  proof
    assume "noLineBreak (stripConstraints (trim v))"
    then show ?thesis by (rule baseVersion_steps_oneline)
  next
    assume "markerFree (beforeWhitespace (stripConstraints (trim v)))"
    then show ?thesis by (simp only: baseVersion_token steps_token)
  qed
qed

text \<open>
  On every text the code cuts no earlier than the steps do: the text the steps end with
  is a prefix of the text the code passes to the wildcard branch.
\<close>

lemma beforeWhitespace_dropFrom:
  assumes m: "wsFree m"
  shows "beforeWhitespace (dropFrom m s) = dropFrom m (beforeWhitespace s)"
proof (induction s)
  case Nil
  then show ?case by (simp add: beforeWhitespace_def)
next
  case (Cons c cs)
  show ?case
  proof (cases "prefix m (c # cs)")
    case True
    then have "prefix m (beforeWhitespace (c # cs))" by (rule prefix_beforeWhitespace [OF m])
    then have "dropFrom m (beforeWhitespace (c # cs)) = []"
      by (cases "beforeWhitespace (c # cs)") auto
    then show ?thesis using True by (simp add: beforeWhitespace_def)
  next
    case False
    note np = this
    show ?thesis
    proof (cases "isWhitespace c")
      case True
      then show ?thesis using np by (simp add: beforeWhitespace_def)
    next
      case False
      then have bw: "beforeWhitespace (c # cs) = c # beforeWhitespace cs"
        by (simp add: beforeWhitespace_def)
      have "prefix (beforeWhitespace (c # cs)) (c # cs)"
        unfolding beforeWhitespace_def by (metis takeWhile_dropWhile_id prefixI)
      then have "\<not> prefix m (c # beforeWhitespace cs)"
        using np bw prefix_order.trans by metis
      then have "dropFrom m (beforeWhitespace (c # cs)) = c # dropFrom m (beforeWhitespace cs)"
        unfolding bw by simp
      moreover have "beforeWhitespace (dropFrom m (c # cs)) = c # beforeWhitespace (dropFrom m cs)"
        using np False by (simp add: beforeWhitespace_def)
      ultimately show ?thesis using Cons.IH by simp
    qed
  qed
qed

lemma steps_prefix_cut:
  assumes m: "wsFree m"
    and Q: "\<And>c cs. Q (c # cs) \<Longrightarrow> \<not> isWhitespace c \<Longrightarrow> prefix m (c # cs)"
  shows "prefix (dropFrom m (beforeWhitespace y)) (beforeWhitespace (searchPrefix Q y))"
proof (induction y)
  case Nil
  then show ?case by (simp add: beforeWhitespace_def)
next
  case (Cons c cs)
  show ?case
  proof (cases "isWhitespace c")
    case True
    then show ?thesis by (simp add: beforeWhitespace_def)
  next
    case False
    then have bw: "beforeWhitespace (c # cs) = c # beforeWhitespace cs"
      by (simp add: beforeWhitespace_def)
    show ?thesis
    proof (cases "Q (c # cs)")
      case True
      then have "prefix m (c # cs)" using False by (rule Q)
      then have "prefix m (c # beforeWhitespace cs)"
        using prefix_beforeWhitespace [OF m, of "c # cs"] bw by simp
      then show ?thesis unfolding bw by simp
    next
      case nq: False
      have "beforeWhitespace (searchPrefix Q (c # cs)) = c # beforeWhitespace (searchPrefix Q cs)"
        using nq False by (simp add: beforeWhitespace_def)
      then show ?thesis unfolding bw using Cons.IH by simp
    qed
  qed
qed

lemma takeWhile_prefix_mono:
  assumes "prefix x y"
  shows "prefix (takeWhile p x) (takeWhile p y)"
proof -
  from assms obtain r where y: "y = x @ r" by (auto simp: prefix_def)
  show ?thesis
  proof (cases "\<forall>c\<in>set x. p c")
    case True
    have a: "takeWhile p (x @ r) = x @ takeWhile p r" using True by (rule takeWhile_append_all)
    have b: "takeWhile p x = x" using True by (rule takeWhile_all)
    show ?thesis unfolding y a b by simp
  next
    case False
    then have "takeWhile p (x @ r) = takeWhile p x" by (rule takeWhile_append_stop)
    then show ?thesis unfolding y by simp
  qed
qed

lemma steps_prefix_code:
  "prefix (beforeWhitespace (dropFrom (asc ''-'') (dropFrom (asc ''||'') s)))
     (beforeWhitespace
       (searchPrefix (\<lambda>t. prefix (asc ''-'') (dropWhile isWhitespace t)
                            \<and> noLineBreak (dropWhile isWhitespace t))
         (searchPrefix (\<lambda>t. prefix (asc ''||'') (dropWhile isWhitespace t)
                              \<and> noLineBreak (dropWhile isWhitespace t)) s)))"
proof -
  let ?O = "\<lambda>t. prefix (asc ''||'') (dropWhile isWhitespace t) \<and> noLineBreak (dropWhile isWhitespace t)"
  let ?D = "\<lambda>t. prefix (asc ''-'') (dropWhile isWhitespace t) \<and> noLineBreak (dropWhile isWhitespace t)"
  let ?B = "searchPrefix ?O s"
  have 1: "beforeWhitespace (dropFrom (asc ''-'') (dropFrom (asc ''||'') s))
      = dropFrom (asc ''-'') (dropFrom (asc ''||'') (beforeWhitespace s))"
    by (simp only: beforeWhitespace_dropFrom [OF wsFree_dash] beforeWhitespace_dropFrom [OF wsFree_bars])
  have 2: "prefix (dropFrom (asc ''||'') (beforeWhitespace s)) (beforeWhitespace ?B)"
    using wsFree_bars cut_head by (rule steps_prefix_cut)
  have 3: "prefix (dropFrom (asc ''-'') (dropFrom (asc ''||'') (beforeWhitespace s)))
      (dropFrom (asc ''-'') (beforeWhitespace ?B))"
    unfolding dropFrom_dash using 2 by (rule takeWhile_prefix_mono)
  have 4: "prefix (dropFrom (asc ''-'') (beforeWhitespace ?B)) (beforeWhitespace (searchPrefix ?D ?B))"
    using wsFree_dash cut_head by (rule steps_prefix_cut)
  show ?thesis unfolding 1 using 3 4 by (rule prefix_order.trans)
qed

subsection \<open>The wildcard branch\<close>

lemma str_includes_single: "str_includes s [c] = (c \<in> set s)"
  by (induction s) (auto simp: prefix_Cons)

lemma str_includes_asc: "str_includes s (asc [c]) = (Ch c \<in> set s)"
  by (simp add: str_includes_single)

lemma str_replace_eol:
  "str_replace False r True repl s =
     (if rxfind r True s = None then s
      else searchPrefix (\<lambda>t. rxmatch r True t \<noteq> None) s @ repl)"
  by (auto simp: str_replace_def rxexec_def split: option.splits dest: rxfind_eol_Some)

lemma match_class_rest:
  assumes "noLineBreak t"
  shows "(rxmatch [(q, One), (anyChar, Star)] True t \<noteq> None) = (t \<noteq> [] \<and> q (hd t))"
proof (cases t)
  case Nil
  then show ?thesis by simp
next
  case (Cons a u)
  have "\<forall>c\<in>set u. anyChar c" using assms Cons by (simp add: noLineBreak_def anyChar_def)
  then have "rxmatch [(anyChar, Star)] True u = Some ([u], [])"
    by (rule rxmatch_star_all_eol)
  then show ?thesis using Cons by simp
qed

lemma suffix_hd_iff:
  "(\<forall>t. suffix t s \<longrightarrow> \<not> (t \<noteq> [] \<and> q (hd t))) = (\<forall>c\<in>set s. \<not> q c)"
  by (induction s) (auto simp: suffix_Cons)

lemma replace_class_rest:
  assumes "noLineBreak s"
  shows "str_replace False [(q, One), (anyChar, Star)] True repl s =
           (if \<forall>c\<in>set s. \<not> q c then s else takeWhile (\<lambda>c. \<not> q c) s @ repl)"
proof -
  have m: "\<And>t. suffix t s \<Longrightarrow>
      (rxmatch [(q, One), (anyChar, Star)] True t \<noteq> None) = (t \<noteq> [] \<and> q (hd t))"
    by (rule match_class_rest) (rule noLineBreak_suffix [OF assms])
  have "(rxfind [(q, One), (anyChar, Star)] True s = None) = (\<forall>c\<in>set s. \<not> q c)"
    unfolding rxfind_None_iff using m suffix_hd_iff [of s q] by blast
  moreover have "searchPrefix (\<lambda>t. rxmatch [(q, One), (anyChar, Star)] True t \<noteq> None) s
      = takeWhile (\<lambda>c. \<not> q c) s"
    using searchPrefix_cong [of s "\<lambda>t. rxmatch [(q, One), (anyChar, Star)] True t \<noteq> None"
        "\<lambda>t. t \<noteq> [] \<and> q (hd t)"] m
    by (simp only: searchPrefix_hd)
  ultimately show ?thesis by (simp only: str_replace_eol)
qed

lemma replace_final_dot:
  "str_replace False [(oneOf (asc ''.''), One)] True (asc ''.0'') (x @ (asc ''0'')) = x @ (asc ''0'')"
proof -
  have "rxmatch [(oneOf (asc ''.''), One)] True t = None" if "suffix t (x @ (asc ''0''))" for t
  proof (cases t)
    case Nil
    then show ?thesis by simp
  next
    case (Cons a u)
    show ?thesis
    proof (cases u)
      case Nil
      then have "a = Ch (CHR ''0'')" using that Cons by (auto simp: suffix_def)
      then show ?thesis using Cons Nil by (simp add: oneOf_def)
    next
      case (Cons b u')
      then show ?thesis using \<open>t = a # u\<close> by simp
    qed
  qed
  then have "rxfind [(oneOf (asc ''.''), One)] True (x @ (asc ''0'')) = None"
    unfolding rxfind_None_iff by blast
  then show ?thesis by (simp add: str_replace_eol)
qed

lemma handleWildcards_steps:
  assumes "noLineBreak c"
  shows "handleWildcards c =
           (if Ch (CHR ''*'') \<in> set c \<or> Ch (CHR ''x'') \<in> set c
            then takeWhile (\<lambda>a. \<not> oneOf (asc ''.*x'') a) c @ (asc ''0'') else c)"
proof (cases "Ch (CHR ''*'') \<in> set c \<or> Ch (CHR ''x'') \<in> set c")
  case True
  then have "\<not> (\<forall>a\<in>set c. \<not> oneOf (asc ''.*x'') a)" by (auto simp: oneOf_def)
  then have "str_replace False [(oneOf (asc ''.*x''), One), (anyChar, Star)] True (asc ''0'') c
      = takeWhile (\<lambda>a. \<not> oneOf (asc ''.*x'') a) c @ (asc ''0'')"
    by (simp only: replace_class_rest [OF assms] if_False)
  then show ?thesis using True
    by (simp only: handleWildcards_def str_includes_asc replace_final_dot if_True)
next
  case False
  then show ?thesis by (simp only: handleWildcards_def str_includes_asc if_False)
qed

subsection \<open>Results of \<open>cleanVersion\<close> are fixed points\<close>

lemma lineTerminator_ws: "isLineTerminator c \<Longrightarrow> isWhitespace c"
  by (cases c) (auto simp: isWhitespace_def isLineTerminator_def)

lemma wsFree_noLineBreak: "wsFree s \<Longrightarrow> noLineBreak s"
  by (auto simp: wsFree_def noLineBreak_def dest: lineTerminator_ws)

lemma trim_wsFree: "wsFree s \<Longrightarrow> trim s = s"
proof -
  assume a: "wsFree s"
  have 1: "dropWhile isWhitespace s = s" using a by (cases s) (auto simp: wsFree_def)
  have 2: "dropWhile isWhitespace (rev s) = rev s"
    using a by (cases "rev s") (auto simp: wsFree_def dest: arg_cong [where f=set])
  show ?thesis by (simp add: trim_def 1 2)
qed

lemma searchPrefix_id: "(\<And>t. suffix t s \<Longrightarrow> \<not> P t) \<Longrightarrow> searchPrefix P s = s"
  by (induction s) (auto simp: suffix_Cons)

lemma dropFrom_free:
  "suffix t (dropFrom needle s) \<Longrightarrow> \<not> prefix needle t \<or> needle = []"
proof (induction s arbitrary: t)
  case Nil
  then show ?case by (cases needle) auto
next
  case (Cons c cs)
  show ?case
  proof (cases "prefix needle (c # cs)")
    case True
    then show ?thesis using Cons.prems by (cases needle) auto
  next
    case False
    have pre: "prefix (dropFrom needle cs) cs" for cs
      by (induction cs) auto
    from Cons.prems False have "t = c # dropFrom needle cs \<or> suffix t (dropFrom needle cs)"
      by (simp add: suffix_Cons)
    then show ?thesis
    proof
      assume t: "t = c # dropFrom needle cs"
      have "prefix t (c # cs)" using t pre by simp
      then have "\<not> prefix needle t" using False prefix_order.trans by blast
      then show ?thesis by simp
    next
      assume "suffix t (dropFrom needle cs)"
      then show ?thesis by (rule Cons.IH)
    qed
  qed
qed

lemma wsFree_beforeWhitespace: "wsFree (beforeWhitespace s)"
  by (auto simp: wsFree_def beforeWhitespace_def dest: set_takeWhileD)

text \<open>
  When the text the steps end with holds a wildcard, the wildcard branch cuts inside it,
  whatever the code has left after it.
\<close>

lemma handleWildcards_prefix:
  assumes w: "hasWildcard x" and p: "prefix x t" and ws: "wsFree t"
  shows "handleWildcards t = handleWildcards x"
proof -
  from p obtain r where t: "t = x @ r" by (auto simp: prefix_def)
  have wx: "Ch (CHR ''*'') \<in> set x \<or> Ch (CHR ''x'') \<in> set x"
    using w by (simp add: hasWildcard_def str_includes_single)
  then have wt: "Ch (CHR ''*'') \<in> set t \<or> Ch (CHR ''x'') \<in> set t" using t by auto
  have nlt: "noLineBreak t" using ws by (rule wsFree_noLineBreak)
  have "wsFree x" using ws t by (simp add: wsFree_def)
  then have nlx: "noLineBreak x" by (rule wsFree_noLineBreak)
  have "\<not> (\<forall>a\<in>set x. \<not> oneOf (asc ''.*x'') a)" using wx by (auto simp: oneOf_def)
  then have "takeWhile (\<lambda>a. \<not> oneOf (asc ''.*x'') a) (x @ r)
      = takeWhile (\<lambda>a. \<not> oneOf (asc ''.*x'') a) x"
    by (rule takeWhile_append_stop)
  then have tw: "takeWhile (\<lambda>a. \<not> oneOf (asc ''.*x'') a) t
      = takeWhile (\<lambda>a. \<not> oneOf (asc ''.*x'') a) x"
    unfolding t .
  have a: "handleWildcards t = takeWhile (\<lambda>a. \<not> oneOf (asc ''.*x'') a) t @ asc ''0''"
    using wt by (simp only: handleWildcards_steps [OF nlt] if_True)
  have b: "handleWildcards x = takeWhile (\<lambda>a. \<not> oneOf (asc ''.*x'') a) x @ asc ''0''"
    using wx by (simp only: handleWildcards_steps [OF nlx] if_True)
  show ?thesis by (simp only: a b tw)
qed

lemma cleanVersion_steps:
  assumes "lineBreakSafe v"
  shows "cleanVersion (Some v) =
           handleWildcards
             (beforeWhitespace (dropFrom (asc ''-'') (dropFrom (asc ''||'') (stripConstraints (trim v)))))"
proof (cases "v = []")
  case True
  then show ?thesis
    by (simp add: cleanVersion_def handleWildcards_def trim_def stripConstraints_def
        beforeWhitespace_def)
next
  case False
  let ?steps = "beforeWhitespace (dropFrom (asc ''-'') (dropFrom (asc ''||'') (stripConstraints (trim v))))"
  have cv: "cleanVersion (Some v) = handleWildcards (baseVersion v)"
    using False by (simp add: cleanVersion_def)
  from assms consider
      (line) "noLineBreak (trim v) \<or> markerFree (beforeWhitespace (trim v))"
    | (wild) "hasWildcard ?steps"
    unfolding lineBreakSafe_def cleanSteps_def by blast
  then show ?thesis
  proof cases
    case line
    then have "baseVersion v = ?steps" by (rule baseVersion_steps)
    then show ?thesis using cv by (simp only:)
  next
    case wild
    have "prefix ?steps (baseVersion v)"
      unfolding baseVersion_code by (rule steps_prefix_code)
    moreover have "wsFree (baseVersion v)"
      unfolding baseVersion_code by (rule wsFree_beforeWhitespace)
    ultimately have "handleWildcards (baseVersion v) = handleWildcards ?steps"
      using wild by (intro handleWildcards_prefix)
    then show ?thesis using cv by (simp only:)
  qed
qed

lemma lineBreakSafe_wsFree: "wsFree c \<Longrightarrow> lineBreakSafe c"
  by (simp add: lineBreakSafe_def trim_wsFree wsFree_noLineBreak)

lemma barsFree_dropFrom: "barsFree (dropFrom (asc ''||'') s)"
  using dropFrom_free [of _ "(asc ''||'')" s] by (auto simp: barsFree_def)

lemma barsFree_prefix:
  assumes "barsFree d" "prefix p d"
  shows "barsFree p"
  unfolding barsFree_def
proof (intro allI impI)
  fix t assume "suffix t p"
  then obtain a where a: "p = a @ t" by (auto simp: suffix_def)
  from assms(2) obtain b where b: "d = p @ b" by (auto simp: prefix_def)
  have "suffix (t @ b) d" using a b by (simp add: suffix_def)
  then have "\<not> prefix (asc ''||'') (t @ b)" using assms(1) by (simp add: barsFree_def)
  then show "\<not> prefix (asc ''||'') t" using prefix_prefix by blast
qed

lemma barsFree_snoc:
  assumes "barsFree p" "z \<noteq> Ch (CHR ''|'')"
  shows "barsFree (p @ [z])"
  unfolding barsFree_def
proof (intro allI impI notI)
  fix t assume s: "suffix t (p @ [z])" and pr: "prefix (asc ''||'') t"
  from pr obtain u where u: "t = Ch (CHR ''|'') # Ch (CHR ''|'') # u" by (auto simp: prefix_def)
  from u have "t \<noteq> []" by simp
  then obtain t0 y where ty: "t = t0 @ [y]" by (cases t rule: rev_cases) auto
  from s obtain zs where "p @ [z] = zs @ t" by (auto simp: suffix_def)
  then have "p @ [z] = (zs @ t0) @ [y]" using ty by simp
  then have pz: "p = zs @ t0" "z = y" by simp_all
  have t0: "suffix t0 p" using pz(1) by (simp add: suffix_def)
  have "t0 @ [z] = Ch (CHR ''|'') # Ch (CHR ''|'') # u" using u ty pz(2) by simp
  then obtain u0 where "t0 = Ch (CHR ''|'') # Ch (CHR ''|'') # u0"
    using assms(2) by (cases t0; cases "tl t0") auto
  then have "prefix (asc ''||'') t0" by simp
  then show False using assms(1) t0 by (simp add: barsFree_def)
qed

lemma dropFrom_bars_id: "barsFree c \<Longrightarrow> dropFrom (asc ''||'') c = c"
  unfolding dropFrom_searchPrefix barsFree_def by (rule searchPrefix_id) blast

lemma cleaned_fixed:
  assumes "cleaned c"
  shows "cleanVersion (Some c) = c"
proof (cases "c = []")
  case True
  then show ?thesis by (simp add: cleanVersion_def)
next
  case False
  have ws: "wsFree c" and bars: "barsFree c"
    and chars: "\<forall>a\<in>set c. a \<noteq> Ch (CHR ''-'') \<and> a \<noteq> Ch (CHR ''*'') \<and> a \<noteq> Ch (CHR ''x'')"
    and hd: "\<not> oneOf (asc ''^~>=<'') (hd c)"
    using assms False by (simp_all add: cleaned_def)
  have nl: "noLineBreak c" using ws by (rule wsFree_noLineBreak)
  have 1: "trim c = c" using ws by (rule trim_wsFree)
  have 2: "stripConstraints c = c" using hd False by (cases c) (simp_all add: stripConstraints_def)
  have 3: "dropFrom (asc ''||'') c = c" using bars by (rule dropFrom_bars_id)
  have 4: "dropFrom (asc ''-'') c = c" using chars by (simp add: dropFrom_single)
  have 5: "beforeWhitespace c = c" using ws by (simp add: beforeWhitespace_def wsFree_def)
  have 6: "handleWildcards c = c" using chars by (auto simp add: handleWildcards_steps [OF nl])
  show ?thesis by (simp only: cleanVersion_steps [OF lineBreakSafe_wsFree [OF ws]] 1 2 3 4 5 6)
qed

lemma prefix_takeWhile: "prefix (takeWhile P s) s"
  by (metis takeWhile_dropWhile_id prefixI)

lemma prefix_dropFrom: "prefix (dropFrom needle s) s"
  by (induction s) auto

lemma token_cleaned_parts:
  fixes v :: jsstring
  defines "tok \<equiv> beforeWhitespace (dropFrom (asc ''-'') (dropFrom (asc ''||'') (stripConstraints (trim v))))"
  shows "wsFree tok" and "barsFree tok" and "\<forall>a\<in>set tok. a \<noteq> Ch (CHR ''-'')"
    and "tok = [] \<or> \<not> oneOf (asc ''^~>=<'') (hd tok)"
proof -
  let ?s = "stripConstraints (trim v)"
  show "wsFree tok" unfolding tok_def by (rule wsFree_beforeWhitespace)
  have p1: "prefix tok (dropFrom (asc ''-'') (dropFrom (asc ''||'') ?s))"
    unfolding tok_def beforeWhitespace_def by (rule prefix_takeWhile)
  have p2: "prefix (dropFrom (asc ''-'') (dropFrom (asc ''||'') ?s)) (dropFrom (asc ''||'') ?s)"
    by (rule prefix_dropFrom)
  have p3: "prefix tok (dropFrom (asc ''||'') ?s)" using p1 p2 by (rule prefix_order.trans)
  show "barsFree tok" using barsFree_dropFrom p3 by (rule barsFree_prefix)
  show "\<forall>a\<in>set tok. a \<noteq> Ch (CHR ''-'')"
    unfolding tok_def beforeWhitespace_def dropFrom_dash
    by (auto dest!: set_takeWhileD)
  have p4: "prefix tok ?s" using p3 prefix_dropFrom by (rule prefix_order.trans)
  have "?s = [] \<or> \<not> oneOf (asc ''^~>=<'') (hd ?s)"
    unfolding stripConstraints_def using hd_dropWhile [of "oneOf (asc ''^~>=<'')" "trim v"] by blast
  then show "tok = [] \<or> \<not> oneOf (asc ''^~>=<'') (hd tok)"
    using p4 by (cases tok) (auto simp: prefix_def)
qed

lemma cleanVersion_cleaned:
  assumes "lineBreakSafe v"
  shows "cleaned (cleanVersion (Some v))"
proof -
  define tok where "tok = beforeWhitespace (dropFrom (asc ''-'') (dropFrom (asc ''||'') (stripConstraints (trim v))))"
  have ws: "wsFree tok" and bars: "barsFree tok" and dash: "\<forall>a\<in>set tok. a \<noteq> Ch (CHR ''-'')"
    and hd: "tok = [] \<or> \<not> oneOf (asc ''^~>=<'') (hd tok)"
    unfolding tok_def by (rule token_cleaned_parts)+
  have nl: "noLineBreak tok" using ws by (rule wsFree_noLineBreak)
  have cv: "cleanVersion (Some v) = handleWildcards tok"
    by (simp only: cleanVersion_steps [OF assms] tok_def)
  show ?thesis
  proof (cases "Ch (CHR ''*'') \<in> set tok \<or> Ch (CHR ''x'') \<in> set tok")
    case True
    let ?p = "takeWhile (\<lambda>a. \<not> oneOf (asc ''.*x'') a) tok"
    have r: "cleanVersion (Some v) = ?p @ (asc ''0'')"
      using True by (simp only: cv handleWildcards_steps [OF nl] if_True)
    have pp: "prefix ?p tok" by (rule prefix_takeWhile)
    have sub: "set ?p \<subseteq> set tok" by (auto dest: set_takeWhileD)
    have 1: "wsFree (?p @ (asc ''0''))"
      using ws sub by (auto simp: wsFree_def isWhitespace_def)
    have z: "asc ''0'' = [Ch (CHR ''0'')]" by simp
    have 2: "barsFree (?p @ (asc ''0''))"
      unfolding z by (rule barsFree_snoc) (rule barsFree_prefix [OF bars pp], simp)
    have 3: "\<forall>a\<in>set (?p @ (asc ''0'')). a \<noteq> Ch (CHR ''-'') \<and> a \<noteq> Ch (CHR ''*'') \<and> a \<noteq> Ch (CHR ''x'')"
      using dash by (auto simp: oneOf_def dest!: set_takeWhileD)
    have 4: "\<not> oneOf (asc ''^~>=<'') (hd (?p @ (asc ''0'')))"
    proof (cases ?p)
      case Nil
      then show ?thesis by (simp add: oneOf_def)
    next
      case (Cons a q)
      then have "hd (?p @ (asc ''0'')) = hd tok" using pp by (auto simp: prefix_def)
      moreover have "tok \<noteq> []" using Cons by auto
      ultimately show ?thesis using hd by simp
    qed
    show ?thesis unfolding r cleaned_def using 1 2 3 4 by blast
  next
    case False
    then have "cleanVersion (Some v) = tok"
      by (simp only: cv handleWildcards_steps [OF nl] if_False)
    then show ?thesis unfolding cleaned_def using ws bars dash hd False by auto
  qed
qed

lemma cleanVersion_idem:
  assumes "lineBreakSafe v"
  shows "cleanVersion (Some (cleanVersion (Some v))) = cleanVersion (Some v)"
  by (rule cleaned_fixed) (rule cleanVersion_cleaned [OF assms])

text \<open>The definitions that evaluate \<open>cleanVersion\<close> on a literal.\<close>

lemmas cleanVersion_eval =
  cleanVersion_def baseVersion_def handleWildcards_def split_first_def str_replace_def
  rxexec_def trim_def isWhitespace_def isLineTerminator_def oneOf_def anyChar_def lit_def

text \<open>The definitions that evaluate the steps of the specification on a literal.\<close>

lemmas steps_eval =
  cleanSteps_def firstToken_def beforeWhitespace_def stripConstraints_def trim_def
  isWhitespace_def oneOf_def
section \<open>Properties of the severity classifier\<close>

lemma severityOfText_known: "severityOfText str = Some r \<Longrightarrow> r \<noteq> UNKNOWN"
  by (auto simp: severityOfText_def split: if_splits)

lemma severityOfScore_known: "severityOfScore n \<noteq> UNKNOWN"
  by (simp add: severityOfScore_def)

lemma severityOfDatabase_known: "severityOfDatabase vuln \<noteq> UNKNOWN"
  by (auto simp: severityOfDatabase_def dest: severityOfText_known split: option.splits)

lemma mapOsvSeverity_known: "mapOsvSeverity parseFloat vuln \<noteq> UNKNOWN"
  by (auto simp: mapOsvSeverity_def severityOfScore_known severityOfDatabase_known
      dest: severityOfText_known split: option.splits list.splits)

lemma firstCvssScore_not_NaN: "firstCvssScore parseFloat sevs = Some n \<Longrightarrow> n \<noteq> NaN"
  by (induction sevs) (auto simp: isNaN_def split: if_splits)

lemma getCvssScore_not_NaN: "getCvssScore parseFloat vuln = Some n \<Longrightarrow> n \<noteq> NaN"
  by (auto simp: getCvssScore_def truthy_num_def dest: firstCvssScore_not_NaN
      split: option.splits if_splits)

section \<open>Properties of the conversion, the parsers and the scan\<close>

subsection \<open>The conversion and the npm parser\<close>

lemma setAddAll_distinct: "distinct seen \<Longrightarrow> distinct (setAddAll seen xs)"
  by (induction xs arbitrary: seen) auto

lemma uniqueValues_distinct: "distinct (uniqueValues xs)"
  by (simp add: uniqueValues_def setAddAll_distinct)

lemma split_first_one: "split_first [(q, One)] s = takeWhile (\<lambda>c. \<not> q c) s"
  unfolding split_first_def
  by (induction s) (auto split: option.splits prod.splits)

lemma firstSentenceSummary_eq:
  "firstSentenceSummary d = ellipsis200 (firstSentence (trim d))"
proof -
  have "(\<lambda>c. \<not> oneOf [Ch (CHR ''.''), Ch (CHR 0x0A)] c) = (\<lambda>c. c \<noteq> Ch (CHR ''.'') \<and> c \<noteq> Ch (CHR 0x0A))"
    by (rule ext) (simp add: oneOf_def)
  then show ?thesis
    by (simp add: firstSentenceSummary_def ellipsis200_def firstSentence_def split_first_one)
qed

lemma ellipsis200_empty: "ellipsis200 [] = []"
  by (simp add: ellipsis200_def)

lemma summaryOf_choice: "summaryOf apiVuln pkg = summaryChoice apiVuln pkg"
  by (cases "api_summary apiVuln"; cases "api_details apiVuln")
     (auto simp: summaryOf_def summaryChoice_def Let_def firstSentenceSummary_eq
        ellipsis200_def firstSentence_def trim_def)

lemma summaryChoice_nonempty: "summaryChoice apiVuln pkg \<noteq> []"
  by (simp add: summaryChoice_def)

lemma npmEntries_eq:
  "npmEntries file es =
     map (npmPackage file) (filter (\<lambda>e. cleanVersion (Some (snd e)) \<noteq> []) (stringEntries es))"
  by (induction es rule: stringEntries.induct) (simp_all add: npmPackage_def)

lemma npmSection_eq:
  "npmSection file packageJson key =
     map (npmPackage file)
       (filter (\<lambda>e. cleanVersion (Some (snd e)) \<noteq> []) (stringEntries (sectionEntries packageJson key)))"
proof (cases "getProp packageJson key")
  case None
  then show ?thesis by (simp add: npmSection_def sectionEntries_def)
next
  case (Some deps)
  then show ?thesis
    by (cases deps) (simp_all add: npmSection_def sectionEntries_def npmEntries_eq)
qed

lemma extractNpmPackages_object:
  "JSON_parse src = Some (JObject kvs) \<Longrightarrow>
   extractNpmPackages JSON_parse src file =
     map (npmPackage file)
       (filter (\<lambda>e. cleanVersion (Some (snd e)) \<noteq> []) (dependencyEntries (JObject kvs)))"
  by (simp add: extractNpmPackages_def npmSection_eq dependencyEntries_def)

subsection \<open>The counters of a report\<close>

lemma convertPackages_known:
  "\<forall>v\<in>set (convertPackages parseFloat m pkgs). severity v \<noteq> UNKNOWN"
  by (induction pkgs)
     (auto simp: convertOsvVulnerability_def mapOsvSeverity_known split: option.splits)

lemma scanPackages_known:
  "scanPackages parseFloat net trace pkgs = (Inr vs, trace1) \<Longrightarrow>
   \<forall>v\<in>set vs. severity v \<noteq> UNKNOWN"
  using convertPackages_known [of parseFloat _ pkgs]
  by (auto simp: scanPackages_def split: if_splits prod.splits sum.splits)

lemma severity_buckets:
  "\<forall>v\<in>set vs. severity v \<noteq> UNKNOWN \<Longrightarrow>
   length (filter (\<lambda>v. severity v = CRITICAL) vs) + length (filter (\<lambda>v. severity v = HIGH) vs)
     + length (filter (\<lambda>v. severity v = MEDIUM) vs) + length (filter (\<lambda>v. severity v = LOW) vs)
   = length vs"
proof (induction vs)
  case Nil
  then show ?case by simp
next
  case (Cons a vs)
  then show ?case by (cases "severity a") simp_all
qed

lemma statsConsistent_empty:
  "vulnerabilities r = [] \<Longrightarrow> stats r = zeroStats \<Longrightarrow> statsConsistent r"
  by (simp add: statsConsistent_def zeroStats_def)

lemma statsConsistent_calculated:
  "\<forall>v\<in>set (vulnerabilities r). severity v \<noteq> UNKNOWN \<Longrightarrow>
   stats r = calculateStats (vulnerabilities r) \<Longrightarrow> statsConsistent r"
  using severity_buckets [of "vulnerabilities r"]
  by (simp add: statsConsistent_def calculateStats_def)

lemma action_stats: "statsConsistent (fst (fst (action env startTime endTime body)))"
proof (cases body)
  case (Inl msg)
  then show ?thesis by (simp add: action_def statsConsistent_empty)
next
  case (Inr files)
  show ?thesis
  proof (cases files)
    case None
    then show ?thesis using Inr by (simp add: action_def statsConsistent_empty)
  next
    case (Some fs)
    let ?pkgs = "extractAllPackages (env_JSON_parse env) (manifestFilesOf fs)"
    show ?thesis
    proof (cases "fs = [] \<or> manifestFilesOf fs = [] \<or> ?pkgs = []")
      case True
      then show ?thesis using Inr Some by (auto simp add: action_def statsConsistent_empty)
    next
      case False
      obtain outcome trace where sp:
        "scanPackages (env_parseFloat env) (env_network env) [] ?pkgs = (outcome, trace)"
        by (cases "scanPackages (env_parseFloat env) (env_network env) [] ?pkgs")
      show ?thesis
      proof (cases outcome)
        case (Inl e)
        then show ?thesis using Inr Some False sp
          by (cases e) (simp add: action_def statsConsistent_empty)
      next
        case (Inr vs)
        then have "\<forall>v\<in>set vs. severity v \<noteq> UNKNOWN"
          using sp scanPackages_known by blast
        then show ?thesis using \<open>body = Inr files\<close> Some False sp Inr
          by (simp add: action_def statsConsistent_calculated)
      qed
    qed
  qed
qed

lemma manifestFilesOf_none:
  "\<forall>f\<in>set files. detectManifestType (path f) = None \<Longrightarrow> manifestFilesOf files = []"
  by (simp add: manifestFilesOf_def)

lemma manifestFilesOf_some:
  "\<exists>f\<in>set files. detectManifestType (path f) \<noteq> None \<Longrightarrow> manifestFilesOf files \<noteq> []"
  by (auto simp: manifestFilesOf_def filter_empty_conv)

subsection \<open>The history of a batch\<close>

lemma fetchVulnerabilityDetails_trace:
  "snd (fetchVulnerabilityDetails net trace i) = trace @ [Fetch (VulnDetails i)]"
  by (simp add: fetchVulnerabilityDetails_def split: response.splits sum.splits)

lemma fetchAllDetails_trace:
  "snd (fetchAllDetails net trace vulns)
     = trace @ map (\<lambda>v. Fetch (VulnDetails (api_id v))) vulns"
proof (induction vulns arbitrary: trace)
  case Nil
  then show ?case by simp
next
  case (Cons v vulns)
  obtain d t1 where f: "fetchVulnerabilityDetails net trace (api_id v) = (d, t1)"
    by (cases "fetchVulnerabilityDetails net trace (api_id v)")
  then have t1: "t1 = trace @ [Fetch (VulnDetails (api_id v))]"
    using fetchVulnerabilityDetails_trace [of net trace "api_id v"] by simp
  obtain fs t2 where g: "fetchAllDetails net t1 vulns = (fs, t2)"
    by (cases "fetchAllDetails net t1 vulns")
  then have "t2 = t1 @ map (\<lambda>v. Fetch (VulnDetails (api_id v))) vulns"
    using Cons.IH [of t1] by simp
  then show ?case using f g t1 by simp
qed

lemma processResults_trace:
  "\<exists>ds. snd (processResults net m trace batch results) = trace @ ds \<and> list_all isDetailFetch ds"
proof (induction batch arbitrary: m trace results)
  case Nil
  then show ?case by simp
next
  case (Cons pkg batch)
  let ?result = "case results of [] \<Rightarrow> None | result # others \<Rightarrow> result"
  show ?case
  proof (cases "?result")
    case None
    then show ?thesis using Cons.IH [of m trace "tl results"] by simp
  next
    case (Some vulns)
    show ?thesis
    proof (cases "vulns = []")
      case True
      then show ?thesis using Some Cons.IH [of m trace "tl results"] by simp
    next
      case False
      obtain fs t1 where f: "fetchAllDetails net trace vulns = (fs, t1)"
        by (cases "fetchAllDetails net trace vulns")
      then have t1: "t1 = trace @ map (\<lambda>v. Fetch (VulnDetails (api_id v))) vulns"
        using fetchAllDetails_trace [of net trace vulns] by simp
      obtain ds where ds: "snd (processResults net (m(packageKey pkg \<mapsto> fs)) t1 batch (tl results))
          = t1 @ ds" "list_all isDetailFetch ds"
        using Cons.IH [of "m(packageKey pkg \<mapsto> fs)" t1 "tl results"] by blast
      have "snd (processResults net m trace (pkg # batch) results)
          = trace @ (map (\<lambda>v. Fetch (VulnDetails (api_id v))) vulns @ ds)"
        using Some False f ds(1) t1 by simp
      moreover have "list_all isDetailFetch (map (\<lambda>v. Fetch (VulnDetails (api_id v))) vulns @ ds)"
        using ds(2) by (auto simp add: list_all_iff)
      ultimately show ?thesis by blast
    qed
  qed
qed

lemma queryBatch_rate_limited:
  assumes "batchServer net (trace @ [Fetch (BatchQuery (toQueries batch))]) = Response 429 body1"
  shows "\<exists>ds. snd (queryBatch net m trace batch)
           = trace @ [Fetch (BatchQuery (toQueries batch)), Sleep 2000,
                      Fetch (BatchQuery (toQueries batch))] @ ds
         \<and> list_all isDetailFetch ds"
proof -
  let ?q = "Fetch (BatchQuery (toQueries batch))"
  let ?t2 = "trace @ [?q, Sleep 2000, ?q]"
  have nok: "\<not> okStatus 429" by (simp add: okStatus_def)
  show ?thesis
  proof (cases "batchServer net ?t2")
    case (NetworkError msg)
    then have "snd (queryBatch net m trace batch) = ?t2 @ []"
      using assms nok by (simp add: queryBatch_def Let_def)
    then show ?thesis by (intro exI [of _ "[]"]) simp
  next
    case (Response st2 body2)
    show ?thesis
    proof (cases "okStatus st2")
      case False
      then have "snd (queryBatch net m trace batch) = ?t2 @ []"
        using assms nok Response by (simp add: queryBatch_def Let_def)
      then show ?thesis by (intro exI [of _ "[]"]) simp
    next
      case True
      show ?thesis
      proof (cases body2)
        case (Inl msg)
        then have "snd (queryBatch net m trace batch) = ?t2 @ []"
          using assms nok Response True by (simp add: queryBatch_def Let_def)
        then show ?thesis by (intro exI [of _ "[]"]) simp
      next
        case (Inr results)
        obtain ds where ds: "snd (processResults net m ?t2 batch results) = ?t2 @ ds"
            "list_all isDetailFetch ds"
          using processResults_trace [of net m ?t2 batch results] by blast
        have "snd (queryBatch net m trace batch) = snd (processResults net m ?t2 batch results)"
          using assms nok Response True Inr
          by (simp add: queryBatch_def Let_def split: prod.splits)
        then show ?thesis using ds by (intro exI [of _ ds]) simp
      qed
    qed
  qed
qed

lemma queryBatch_retry_failed:
  assumes "batchServer net (trace @ [Fetch (BatchQuery (toQueries batch))]) = Response 429 body1"
    and "batchServer net (trace @ [Fetch (BatchQuery (toQueries batch)), Sleep 2000,
            Fetch (BatchQuery (toQueries batch))]) = Response st2 body2"
    and "\<not> okStatus st2"
  shows "queryBatch net m trace batch
           = (Inl (Error ((asc ''OSV API failed after retry: '') @ showNat st2)),
              trace @ [Fetch (BatchQuery (toQueries batch)), Sleep 2000,
                       Fetch (BatchQuery (toQueries batch))])"
proof -
  have nok: "\<not> okStatus 429" by (simp add: okStatus_def)
  show ?thesis using assms nok by (simp add: queryBatch_def Let_def)
qed

lemma queryBatch_hard_failure:
  assumes "batchServer net (trace @ [Fetch (BatchQuery (toQueries batch))]) = Response st body1"
    and "\<not> okStatus st" and "st \<noteq> 429"
  shows "queryBatch net m trace batch
           = (Inl (Error ((asc ''OSV API request failed: '') @ showNat st)),
              trace @ [Fetch (BatchQuery (toQueries batch))])"
  using assms by (simp add: queryBatch_def Let_def)

lemma queryBatches_append:
  "queryBatches net m trace (bs @ rest) =
     (case queryBatches net m trace bs of
        (Inl e, trace1) \<Rightarrow> (Inl e, trace1)
      | (Inr m1, trace1) \<Rightarrow> queryBatches net m1 trace1 rest)"
  by (induction bs arbitrary: m trace) (auto split: prod.splits sum.splits)

lemma queryBatches_abort:
  assumes "queryBatches net m0 trace0 bs = (Inr m, trace)"
    and "queryBatch net m trace b = (Inl e, trace1)"
  shows "queryBatches net m0 trace0 (bs @ b # rest) = (Inl e, trace1)"
  using assms by (simp add: queryBatches_append)

lemma action_abort:
  assumes "queryBatches (env_network env) Map.empty [] bs = (Inr m, trace)"
    and "queryBatch (env_network env) m trace b = (Inl (Error msg), trace1)"
    and "splitBatches (extractAllPackages (env_JSON_parse env) (manifestFilesOf files))
           = bs @ b # rest"
  shows "action env startTime endTime (Inr (Some files)) =
           ((\<lparr>success = False, vulnerabilities = [], stats = zeroStats, scannedFiles = 0,
              scannedPackages = 0, scanDuration = endTime - startTime,
              error = Some (if msg = [] then (asc ''Unknown error occurred during vulnerability scan'')
                            else msg)\<rparr>, 500), trace1)"
proof -
  let ?pkgs = "extractAllPackages (env_JSON_parse env) (manifestFilesOf files)"
  have pk: "?pkgs \<noteq> []"
  proof
    assume "?pkgs = []"
    then have "splitBatches ?pkgs = []" by (simp add: splitBatches.simps)
    then show False using assms(3) by simp
  qed
  have mf: "manifestFilesOf files \<noteq> []" using pk by auto
  have fs: "files \<noteq> []" using mf by (auto simp: manifestFilesOf_def)
  have "queryOsvBatch (env_network env) [] ?pkgs = (Inl (Error msg), trace1)"
    unfolding queryOsvBatch_def assms(3) using assms(1,2) by (rule queryBatches_abort)
  then have "scanPackages (env_parseFloat env) (env_network env) [] ?pkgs
      = (Inl (Error msg), trace1)"
    using pk by (simp add: scanPackages_def)
  then show ?thesis using pk mf fs by (simp add: action_def)
qed

section \<open>The definitions on the sample inputs\<close>

lemmas sample_defs = sampleEvent_def sampleAffected_def sampleVulnerability_def
  samplePackage_def bareVulnerability_def

lemmas detect_eval =
  detectManifestType_def endsWithAny_def rxtest_eol_def litI_def toLowerCase_def lowerChar_def
  Let_def

lemma detect_readme: "detectManifestType (asc ''README.md'') = None"
  by (simp add: detect_eval)

lemma detect_package_json: "detectManifestType (asc ''app/Package.json'') = Some Npm"
  by (simp add: detect_eval)

lemma detect_gemfile: "detectManifestType (asc ''Gemfile'') = Some RubyGems"
  by (simp add: detect_eval)

lemma sample_manifest:
  "manifestFilesOf [sampleFile (asc ''package.json'') (asc ''{deps}'')] = [sampleFile (asc ''package.json'') (asc ''{deps}'')]"
  by (simp add: manifestFilesOf_def sampleFile_def detect_eval)

lemma sample_packages:
  "extractAllPackages sampleParse [sampleFile (asc ''package.json'') (asc ''{deps}'')] = samplePackages"
proof -
  have d: "detectManifestType (asc ''package.json'') = Some Npm" by (simp add: detect_eval)
  have e: "extractNpmPackages sampleParse (asc ''{deps}'') (asc ''package.json'') = samplePackages"
    by (simp add: extractNpmPackages_def sampleParse_def npmSection_def samplePackages_def
        cleanVersion_eval)
  show ?thesis using d e by (simp add: sampleFile_def extractPackagesFromManifest_def)
qed

lemma sample_batches: "splitBatches samplePackages = [] @ samplePackages # []"
proof -
  have "splitBatches samplePackages = [samplePackages]"
    by (subst splitBatches.simps, subst splitBatches.simps)
       (simp add: samplePackages_def MAX_BATCH_SIZE_def)
  then show ?thesis by simp
qed

lemma showNat_429: "showNat 429 = (asc ''429'')"
  by (simp add: showNat.simps digitChar_def)

lemma showNat_503: "showNat 503 = (asc ''503'')"
  by (simp add: showNat.simps digitChar_def)

lemma sample_scan:
  "scanPackages (\<lambda>s. NaN) sampleNetwork [] samplePackages =
     (Inr [convertOsvVulnerability (\<lambda>s. NaN) sampleVulnerability (hd samplePackages)],
      [Fetch (BatchQuery (toQueries samplePackages)),
       Fetch (VulnDetails (asc ''GHSA-35jh-r3h4-6jhm''))])"
proof -
  have b: "splitBatches samplePackages = [samplePackages]" using sample_batches by simp
  have q: "queryBatch sampleNetwork Map.empty [] samplePackages =
      (Inr (Map.empty(packageKey (hd samplePackages) \<mapsto> [sampleVulnerability])),
       [Fetch (BatchQuery (toQueries samplePackages)),
        Fetch (VulnDetails (asc ''GHSA-35jh-r3h4-6jhm''))])"
    by (simp add: queryBatch_def Let_def sampleNetwork_def okStatus_def samplePackages_def
        fetchVulnerabilityDetails_def bareVulnerability_def)
  have k: "packageKey (samplePackages ! 1) \<noteq> packageKey (hd samplePackages)"
    by (simp add: samplePackages_def packageKey_def)
  have c: "convertPackages (\<lambda>s. NaN)
        (Map.empty(packageKey (hd samplePackages) \<mapsto> [sampleVulnerability])) samplePackages
      = [convertOsvVulnerability (\<lambda>s. NaN) sampleVulnerability (hd samplePackages)]"
    using k by (simp add: samplePackages_def)
  show ?thesis
    by (simp add: scanPackages_def queryOsvBatch_def b q c) (simp add: samplePackages_def)
qed

lemma sample_severity:
  "severity (convertOsvVulnerability (\<lambda>s. NaN) sampleVulnerability pkg) = HIGH"
  by (simp add: convertOsvVulnerability_def mapOsvSeverity_def getCvssScore_def dbCvssScore_def
      sample_defs severityOfDatabase_def dbSeverity_def severityOfText_def toUpperCase_def
      upperChar_def)

text \<open>
  The parsers on the two manifests of the specification's scenarios: a requirements.txt
  with a comment line, and a Cargo.toml entry in table form.
\<close>

lemma extractPythonPackages_example:
  "extractPythonPackages
     ((asc ''flask==2.0.1'') @ [Ch (CHR 0x0A)] @ (asc ''# comment'') @ [Ch (CHR 0x0A)] @ (asc ''django>=3.2'') @ [Ch (CHR 0x0A)])
     (asc ''requirements.txt'') =
   [\<lparr>name = (asc ''flask''), version = (asc ''2.0.1''), ecosystem = (asc ''PyPI''),
      manifestFile = (asc ''requirements.txt'')\<rparr>,
    \<lparr>name = (asc ''django''), version = (asc ''3.2''), ecosystem = (asc ''PyPI''),
      manifestFile = (asc ''requirements.txt'')\<rparr>]"
  by code_simp

lemma extractRustPackages_example:
  "extractRustPackages
     ((asc ''[dependencies]'') @ [Ch (CHR 0x0A)] @ (asc ''serde = { version = '') @ [Ch (CHR 0x22)] @ (asc ''1.0.100'')
        @ [Ch (CHR 0x22)] @ (asc '', features = ['') @ [Ch (CHR 0x22)] @ (asc ''derive'') @ [Ch (CHR 0x22)] @ (asc ''] }''))
     (asc ''Cargo.toml'') =
   [\<lparr>name = (asc ''serde''), version = (asc ''1.0.100''), ecosystem = (asc ''crates.io''),
      manifestFile = (asc ''Cargo.toml'')\<rparr>]"
  by code_simp

text \<open>
  \<open>split(/\s+/)[0]\<close> of a text that starts with white space is the empty string: a
  constraint with a space after the operator has no usable version.
\<close>

lemma cleanVersion_space_after_operator: "cleanVersion (Some (asc ''>= 1.2.3'')) = []"
  by (simp add: cleanVersion_eval)

section \<open>Claims about the severity classifier\<close>

text \<open>
  Claim C1. For every raw vulnerability record \<open>mapOsvSeverity\<close> returns one of the five
  severities, and never \<open>UNKNOWN\<close>; a record with no CVSS score, no severity entries
  and no database-specific severity is classified \<open>MEDIUM\<close>.
\<close>

theorem mapOsvSeverity_total:
  "mapOsvSeverity parseFloat vuln \<in> {CRITICAL, HIGH, MEDIUM, LOW, UNKNOWN} \<and>
   mapOsvSeverity parseFloat vuln \<noteq> UNKNOWN \<and>
   (dbCvssScore vuln = None \<and> (api_severity vuln = None \<or> api_severity vuln = Some []) \<and>
    dbSeverity vuln = None \<longrightarrow> mapOsvSeverity parseFloat vuln = MEDIUM)"
proof -
  have "mapOsvSeverity parseFloat vuln \<in> {CRITICAL, HIGH, MEDIUM, LOW, UNKNOWN}"
    by (cases "mapOsvSeverity parseFloat vuln") simp_all
  moreover have "mapOsvSeverity parseFloat vuln \<noteq> UNKNOWN"
    by (rule mapOsvSeverity_known)
  moreover have "mapOsvSeverity parseFloat vuln = MEDIUM"
    if "dbCvssScore vuln = None" "api_severity vuln = None \<or> api_severity vuln = Some []"
      "dbSeverity vuln = None"
    using that by (auto simp: mapOsvSeverity_def getCvssScore_def severityOfDatabase_def)
  ultimately show ?thesis by blast
qed

theorem mapOsvSeverity_total_witness:
  "dbCvssScore (bareVulnerability (asc ''GHSA-1'')) = None \<and>
   api_severity (bareVulnerability (asc ''GHSA-1'')) = None \<and>
   dbSeverity (bareVulnerability (asc ''GHSA-1'')) = None \<and>
   mapOsvSeverity (\<lambda>s. NaN) (bareVulnerability (asc ''GHSA-1'')) = MEDIUM"
  using mapOsvSeverity_total [of "\<lambda>s. NaN" "bareVulnerability (asc ''GHSA-1'')"]
  by (simp add: bareVulnerability_def dbCvssScore_def dbSeverity_def)

text \<open>
  Claim C4. Whenever \<open>getCvssScore\<close> yields a score, \<open>mapOsvSeverity\<close> classifies by it:
  \<open>CRITICAL\<close> from 9.0, \<open>HIGH\<close> from 7.0 and below 9.0, \<open>MEDIUM\<close> from 4.0 and below
  7.0, \<open>LOW\<close> otherwise. A record whose \<open>database_specific.cvss_score\<close> is 9.5 is
  \<open>CRITICAL\<close>, and the same record with 6.0 is \<open>MEDIUM\<close>.
\<close>

theorem mapOsvSeverity_cvss:
  "(getCvssScore parseFloat vuln = Some score \<longrightarrow>
      mapOsvSeverity parseFloat vuln =
        (if num_ge score 9.0 then CRITICAL
         else if num_ge score 7.0 \<and> num_lt score 9.0 then HIGH
         else if num_ge score 4.0 \<and> num_lt score 7.0 then MEDIUM
         else LOW)) \<and>
   mapOsvSeverity parseFloat
     (vuln\<lparr>api_database_specific :=
        Some \<lparr>db_severity = sev, db_cvss_score = Some (Finite 9.5)\<rparr>\<rparr>) = CRITICAL \<and>
   mapOsvSeverity parseFloat
     (vuln\<lparr>api_database_specific :=
        Some \<lparr>db_severity = sev, db_cvss_score = Some (Finite 6.0)\<rparr>\<rparr>) = MEDIUM"
proof -
  have ge_lt: "num_lt n c = (\<not> num_ge n c)" if "n \<noteq> NaN" for n c
    using that by (cases n) auto
  have "mapOsvSeverity parseFloat vuln =
        (if num_ge score 9.0 then CRITICAL
         else if num_ge score 7.0 \<and> num_lt score 9.0 then HIGH
         else if num_ge score 4.0 \<and> num_lt score 7.0 then MEDIUM
         else LOW)" if "getCvssScore parseFloat vuln = Some score"
    using that getCvssScore_not_NaN [OF that]
    by (simp add: mapOsvSeverity_def severityOfScore_def ge_lt)
  moreover have "mapOsvSeverity parseFloat
     (vuln\<lparr>api_database_specific :=
        Some \<lparr>db_severity = sev, db_cvss_score = Some (Finite 9.5)\<rparr>\<rparr>) = CRITICAL"
    by (simp add: mapOsvSeverity_def getCvssScore_def dbCvssScore_def truthy_num_def
        severityOfScore_def)
  moreover have "mapOsvSeverity parseFloat
     (vuln\<lparr>api_database_specific :=
        Some \<lparr>db_severity = sev, db_cvss_score = Some (Finite 6.0)\<rparr>\<rparr>) = MEDIUM"
    by (simp add: mapOsvSeverity_def getCvssScore_def dbCvssScore_def truthy_num_def
        severityOfScore_def)
  ultimately show ?thesis by blast
qed

theorem mapOsvSeverity_cvss_witness:
  "getCvssScore (\<lambda>s. NaN)
     (bareVulnerability (asc ''GHSA-2'')
        \<lparr>api_database_specific := Some \<lparr>db_severity = None, db_cvss_score = Some (Finite 7.5)\<rparr>\<rparr>)
     = Some (Finite 7.5) \<and>
   mapOsvSeverity (\<lambda>s. NaN)
     (bareVulnerability (asc ''GHSA-2'')
        \<lparr>api_database_specific := Some \<lparr>db_severity = None, db_cvss_score = Some (Finite 7.5)\<rparr>\<rparr>)
     = HIGH"
  using mapOsvSeverity_cvss [of "\<lambda>s. NaN"
      "bareVulnerability (asc ''GHSA-2'')
        \<lparr>api_database_specific := Some \<lparr>db_severity = None, db_cvss_score = Some (Finite 7.5)\<rparr>\<rparr>"
      "Finite 7.5" None]
  by (simp add: getCvssScore_def dbCvssScore_def truthy_num_def bareVulnerability_def)

section \<open>Claims about the version normalizer\<close>

text \<open>
  Claim C7. A version whose first token contains a wildcard marker should come out with
  the wildcard segment replaced by 0: \<open>1.2.x\<close> as \<open>1.2.0\<close> and \<open>1.x\<close> as \<open>1.0\<close>.
  The class \<open>[.*x]\<close> of the wildcard pattern also holds the dot, so the replacement
  starts at the first dot of the token: both inputs come out as \<open>10\<close>.
\<close>

theorem cleanVersion_wildcard_values:
  "cleanVersion (Some (asc ''1.2.x'')) = (asc ''10'') \<and> cleanVersion (Some (asc ''1.x'')) = (asc ''10'')"
  by (simp add: cleanVersion_eval)




text \<open>
  Claim C9, as stated: \<open>cleanVersion\<close> is idempotent on every string. The dot of the
  patterns matches no line terminator, so a dash followed by a line break survives the
  first pass (which cuts at the line break) and is removed by the second.
\<close>

theorem cleanVersion_idempotent_counterexample:
  "cleanVersion (Some (asc ''1-2'' @ [Ch (CHR 0x0A)] @ asc ''3'')) = asc ''1-2'' \<and>
   cleanVersion (Some (cleanVersion (Some (asc ''1-2'' @ [Ch (CHR 0x0A)] @ asc ''3'')))) = asc ''1'' \<and>
   cleanVersion (Some (cleanVersion (Some (asc ''1-2'' @ [Ch (CHR 0x0A)] @ asc ''3''))))
     \<noteq> cleanVersion (Some (asc ''1-2'' @ [Ch (CHR 0x0A)] @ asc ''3''))"
proof -
  have a: "cleanVersion (Some (asc ''1-2'' @ [Ch (CHR 0x0A)] @ asc ''3'')) = asc ''1-2''"
    by (simp add: cleanVersion_eval)
  have b: "cleanVersion (Some (asc ''1-2'')) = asc ''1''"
    by (simp add: cleanVersion_eval)
  show ?thesis unfolding a b by simp
qed

text \<open>
  Claim C9, amended. \<open>cleanVersion\<close> is idempotent on the undefined input and on every
  string such that the trimmed string has no line terminator, or has neither \<open>||\<close> nor
  a dash before its first white space, or the steps of claim C8 end with a text that
  holds a wildcard.
\<close>

theorem cleanVersion_idempotent:
  "(lineBreakSafe v \<longrightarrow>
      cleanVersion (Some (cleanVersion (Some v))) = cleanVersion (Some v)) \<and>
   cleanVersion (Some (cleanVersion None)) = cleanVersion None"
proof (intro conjI impI)
  assume "lineBreakSafe v"
  then show "cleanVersion (Some (cleanVersion (Some v))) = cleanVersion (Some v)"
    by (rule cleanVersion_idem)
next
  show "cleanVersion (Some (cleanVersion None)) = cleanVersion None"
    by (simp add: cleanVersion_def)
qed

text \<open>
  A wildcard version with a prerelease suffix, then a line feed and more text: the dash
  is not matched, and the wildcard branch cuts before it.
\<close>

theorem cleanVersion_idempotent_witness:
  "lineBreakSafe (asc ''1.x-rc'' @ [Ch (CHR 0x0A)] @ asc ''2'') \<and>
   cleanVersion (Some (asc ''1.x-rc'' @ [Ch (CHR 0x0A)] @ asc ''2'')) = asc ''10'' \<and>
   cleanVersion (Some (cleanVersion (Some (asc ''1.x-rc'' @ [Ch (CHR 0x0A)] @ asc ''2''))))
     = cleanVersion (Some (asc ''1.x-rc'' @ [Ch (CHR 0x0A)] @ asc ''2''))"
proof -
  let ?v = "asc ''1.x-rc'' @ [Ch (CHR 0x0A)] @ asc ''2''"
  have "hasWildcard (cleanSteps (asc ''-'') beforeWhitespace ?v)"
    by (simp add: hasWildcard_def steps_eval)
  then have h: "lineBreakSafe ?v" by (simp only: lineBreakSafe_def simp_thms)
  have e: "cleanVersion (Some ?v) = asc ''10''" by (simp add: cleanVersion_eval)
  have "cleanVersion (Some (cleanVersion (Some ?v))) = cleanVersion (Some ?v)"
    using cleanVersion_idempotent [of ?v] h by (elim conjE) (erule mp)
  then show ?thesis using h e by (intro conjI)
qed

section \<open>Claims about the conversion and the npm parser\<close>

text \<open>
  Claim C5. Every vulnerability that \<open>convertOsvVulnerability\<close> produces has a
  \<open>fixedVersions\<close> list without duplicates and a non-empty summary, which is the
  trimmed upstream summary, else the first sentence of the details (up to a period or a
  newline) cut at 200 characters with an ellipsis, else the text
  \<open>Security vulnerability in\<close> followed by the package name.
\<close>

theorem convertOsvVulnerability_invariants:
  "distinct (fixedVersions (convertOsvVulnerability parseFloat apiVuln pkg)) \<and>
   summary (convertOsvVulnerability parseFloat apiVuln pkg) \<noteq> [] \<and>
   summary (convertOsvVulnerability parseFloat apiVuln pkg) = summaryChoice apiVuln pkg"
  by (simp add: convertOsvVulnerability_def uniqueValues_distinct summaryOf_choice
      summaryChoice_nonempty)

theorem convertOsvVulnerability_invariants_witness:
  "fixedVersions (convertOsvVulnerability (\<lambda>s. NaN) sampleVulnerability samplePackage)
     = [(asc ''4.17.21''), (asc ''5.0.0'')] \<and>
   summary (convertOsvVulnerability (\<lambda>s. NaN) sampleVulnerability samplePackage)
     = (asc ''Command injection in lodash'') \<and>
   distinct (fixedVersions (convertOsvVulnerability (\<lambda>s. NaN) sampleVulnerability samplePackage))"
proof -
  have f: "fixedVersions (convertOsvVulnerability (\<lambda>s. NaN) sampleVulnerability samplePackage)
     = [(asc ''4.17.21''), (asc ''5.0.0'')]"
    by (simp add: convertOsvVulnerability_def sample_defs uniqueValues_def
        extractFixedVersions_def)
  have s: "summary (convertOsvVulnerability (\<lambda>s. NaN) sampleVulnerability samplePackage)
     = (asc ''Command injection in lodash'')"
    by (simp add: convertOsvVulnerability_def sample_defs summaryOf_def Let_def
        firstSentenceSummary_def split_first_def trim_def isWhitespace_def oneOf_def)
  have d: "distinct (fixedVersions
      (convertOsvVulnerability (\<lambda>s. NaN) sampleVulnerability samplePackage))"
    using convertOsvVulnerability_invariants [of "\<lambda>s. NaN" sampleVulnerability samplePackage]
    by (rule conjunct1)
  show ?thesis using f s d by (intro conjI)
qed

text \<open>
  Claim C6. When the content of a package.json parses as a JSON object,
  \<open>extractNpmPackages\<close> returns one record, with the ecosystem \<open>npm\<close> and the cleaned
  version, for each string-valued entry of \<open>dependencies\<close> and of \<open>devDependencies\<close>
  whose cleaned version is not empty, in that order: as many records as there are
  string-valued entries when no cleaned version is empty. When the content does not
  parse, the result is the empty list.
\<close>

theorem extractNpmPackages_entries:
  "(JSON_parse src = Some (JObject kvs) \<longrightarrow>
      extractNpmPackages JSON_parse src mf =
        map (npmPackage mf)
          (filter (\<lambda>e. cleanVersion (Some (snd e)) \<noteq> []) (dependencyEntries (JObject kvs))) \<and>
      ((\<forall>e\<in>set (dependencyEntries (JObject kvs)). cleanVersion (Some (snd e)) \<noteq> []) \<longrightarrow>
         length (extractNpmPackages JSON_parse src mf)
           = length (dependencyEntries (JObject kvs)))) \<and>
   (JSON_parse src = None \<longrightarrow> extractNpmPackages JSON_parse src mf = [])"
proof (intro conjI impI)
  assume p: "JSON_parse src = Some (JObject kvs)"
  then show e: "extractNpmPackages JSON_parse src mf =
        map (npmPackage mf)
          (filter (\<lambda>e. cleanVersion (Some (snd e)) \<noteq> []) (dependencyEntries (JObject kvs)))"
    by (rule extractNpmPackages_object)
  assume "\<forall>e\<in>set (dependencyEntries (JObject kvs)). cleanVersion (Some (snd e)) \<noteq> []"
  then have "filter (\<lambda>e. cleanVersion (Some (snd e)) \<noteq> []) (dependencyEntries (JObject kvs))
      = dependencyEntries (JObject kvs)"
    by simp
  then show "length (extractNpmPackages JSON_parse src mf)
      = length (dependencyEntries (JObject kvs))"
    using e by simp
next
  assume "JSON_parse src = None"
  then show "extractNpmPackages JSON_parse src mf = []"
    by (simp add: extractNpmPackages_def)
qed

theorem extractNpmPackages_entries_witness:
  "extractNpmPackages sampleParse (asc ''{deps}'') (asc ''package.json'') =
     [\<lparr>name = (asc ''lodash''), version = (asc ''4.17.20''), ecosystem = (asc ''npm''),
        manifestFile = (asc ''package.json'')\<rparr>,
      \<lparr>name = (asc ''jest''), version = (asc ''29.0.1''), ecosystem = (asc ''npm''),
        manifestFile = (asc ''package.json'')\<rparr>] \<and>
   length (extractNpmPackages sampleParse (asc ''{deps}'') (asc ''package.json'')) = 2 \<and>
   sampleParse (asc ''{oops'') = None \<and>
   extractNpmPackages sampleParse (asc ''{oops'') (asc ''package.json'') = []"
proof -
  let ?kvs = "[((asc ''name''), JString (asc ''demo'')),
         ((asc ''dependencies''), JObject [((asc ''lodash''), JString (asc ''^4.17.20'')), ((asc ''local''), JBool True)]),
         ((asc ''devDependencies''), JObject [((asc ''jest''), JString (asc ''~29.0.1''))])]"
  have p: "sampleParse (asc ''{deps}'') = Some (JObject ?kvs)" by (simp add: sampleParse_def)
  have d: "dependencyEntries (JObject ?kvs) = [((asc ''lodash''), (asc ''^4.17.20'')), ((asc ''jest''), (asc ''~29.0.1''))]"
    by (simp add: dependencyEntries_def sectionEntries_def)
  have c1: "cleanVersion (Some (asc ''^4.17.20'')) = (asc ''4.17.20'')" by (simp add: cleanVersion_eval)
  have c2: "cleanVersion (Some (asc ''~29.0.1'')) = (asc ''29.0.1'')" by (simp add: cleanVersion_eval)
  have n: "sampleParse (asc ''{oops'') = None" by (simp add: sampleParse_def)
  note w = extractNpmPackages_entries [of sampleParse "(asc ''{deps}'')" ?kvs "(asc ''package.json'')"]
  have e: "extractNpmPackages sampleParse (asc ''{deps}'') (asc ''package.json'') =
        map (npmPackage (asc ''package.json''))
          (filter (\<lambda>e. cleanVersion (Some (snd e)) \<noteq> []) (dependencyEntries (JObject ?kvs)))"
    using w p by blast
  have all: "\<forall>e\<in>set (dependencyEntries (JObject ?kvs)). cleanVersion (Some (snd e)) \<noteq> []"
    unfolding d using c1 c2 by simp
  have l: "length (extractNpmPackages sampleParse (asc ''{deps}'') (asc ''package.json''))
      = length (dependencyEntries (JObject ?kvs))"
    using w p all by blast
  have z: "extractNpmPackages sampleParse (asc ''{oops'') (asc ''package.json'') = []"
    using extractNpmPackages_entries [of sampleParse "(asc ''{oops'')" "[]" "(asc ''package.json'')"] n
    by blast
  have e': "extractNpmPackages sampleParse (asc ''{deps}'') (asc ''package.json'') =
     [\<lparr>name = (asc ''lodash''), version = (asc ''4.17.20''), ecosystem = (asc ''npm''),
        manifestFile = (asc ''package.json'')\<rparr>,
      \<lparr>name = (asc ''jest''), version = (asc ''29.0.1''), ecosystem = (asc ''npm''),
        manifestFile = (asc ''package.json'')\<rparr>]"
    unfolding e d using c1 c2 by (simp add: npmPackage_def)
  have l': "length (extractNpmPackages sampleParse (asc ''{deps}'') (asc ''package.json'')) = 2"
    unfolding l d by simp
  show ?thesis using e' l' n z by (intro conjI)
qed

section \<open>Claims about the scan action\<close>

text \<open>
  Claim C2. When the list of files is not empty and no path is a manifest, the action
  returns a result with \<open>success = false\<close>, the error message about missing manifest
  files and no vulnerabilities. When some file is a manifest and no package is
  extracted from the manifests, it returns \<open>success = true\<close> with no vulnerabilities
  and all counters zero.
\<close>

theorem action_nothing_to_scan:
  "(files \<noteq> [] \<and> (\<forall>f\<in>set files. detectManifestType (path f) = None) \<longrightarrow>
      success (fst (fst (action env startTime endTime (Inr (Some files))))) = False \<and>
      error (fst (fst (action env startTime endTime (Inr (Some files))))) = Some noManifestError \<and>
      vulnerabilities (fst (fst (action env startTime endTime (Inr (Some files))))) = []) \<and>
   ((\<exists>f\<in>set files. detectManifestType (path f) \<noteq> None) \<and>
    extractAllPackages (env_JSON_parse env) (manifestFilesOf files) = [] \<longrightarrow>
      success (fst (fst (action env startTime endTime (Inr (Some files))))) = True \<and>
      vulnerabilities (fst (fst (action env startTime endTime (Inr (Some files))))) = [] \<and>
      stats (fst (fst (action env startTime endTime (Inr (Some files))))) = zeroStats)"
proof (intro conjI impI)
  assume a: "files \<noteq> [] \<and> (\<forall>f\<in>set files. detectManifestType (path f) = None)"
  then have m: "manifestFilesOf files = []" by (simp add: manifestFilesOf_none)
  have r: "fst (fst (action env startTime endTime (Inr (Some files)))) =
      \<lparr>success = False, vulnerabilities = [], stats = zeroStats, scannedFiles = 0,
       scannedPackages = 0, scanDuration = 0, error = Some noManifestError\<rparr>"
    using a m by (simp add: action_def noManifestError_def)
  show "success (fst (fst (action env startTime endTime (Inr (Some files))))) = False"
    unfolding r by simp
  show "error (fst (fst (action env startTime endTime (Inr (Some files))))) = Some noManifestError"
    unfolding r by simp
  show "vulnerabilities (fst (fst (action env startTime endTime (Inr (Some files))))) = []"
    unfolding r by simp
next
  assume a: "(\<exists>f\<in>set files. detectManifestType (path f) \<noteq> None) \<and>
    extractAllPackages (env_JSON_parse env) (manifestFilesOf files) = []"
  then have m: "manifestFilesOf files \<noteq> []" by (simp add: manifestFilesOf_some)
  then have f: "files \<noteq> []" by (auto simp: manifestFilesOf_def)
  have r: "fst (fst (action env startTime endTime (Inr (Some files)))) =
      \<lparr>success = True, vulnerabilities = [], stats = zeroStats,
       scannedFiles = length (manifestFilesOf files), scannedPackages = 0,
       scanDuration = endTime - startTime, error = None\<rparr>"
    using a m f by (simp add: action_def)
  show "success (fst (fst (action env startTime endTime (Inr (Some files))))) = True"
    unfolding r by simp
  show "vulnerabilities (fst (fst (action env startTime endTime (Inr (Some files))))) = []"
    unfolding r by simp
  show "stats (fst (fst (action env startTime endTime (Inr (Some files))))) = zeroStats"
    unfolding r by simp
qed

theorem action_nothing_to_scan_witness:
  "success (fst (fst (action (sampleRuntime sampleNetwork) 0 7
      (Inr (Some [sampleFile (asc ''README.md'') (asc ''demo'')]))))) = False \<and>
   vulnerabilities (fst (fst (action (sampleRuntime sampleNetwork) 0 7
      (Inr (Some [sampleFile (asc ''README.md'') (asc ''demo'')]))))) = [] \<and>
   success (fst (fst (action (sampleRuntime sampleNetwork) 0 7
      (Inr (Some [sampleFile (asc ''README.md'') (asc ''demo''), sampleFile (asc ''app/Package.json'') (asc ''{}'')]))))) = True \<and>
   stats (fst (fst (action (sampleRuntime sampleNetwork) 0 7
      (Inr (Some [sampleFile (asc ''README.md'') (asc ''demo''), sampleFile (asc ''app/Package.json'') (asc ''{}'')]))))) = zeroStats"
proof -
  let ?env = "sampleRuntime sampleNetwork"
  let ?f1 = "[sampleFile (asc ''README.md'') (asc ''demo'')]"
  let ?f2 = "[sampleFile (asc ''README.md'') (asc ''demo''), sampleFile (asc ''app/Package.json'') (asc ''{}'')]"
  have h1: "?f1 \<noteq> [] \<and> (\<forall>f\<in>set ?f1. detectManifestType (path f) = None)"
    using detect_readme by (simp add: sampleFile_def)
  have m2: "manifestFilesOf ?f2 = [sampleFile (asc ''app/Package.json'') (asc ''{}'')]"
    using detect_readme detect_package_json by (simp add: manifestFilesOf_def sampleFile_def)
  have h2: "(\<exists>f\<in>set ?f2. detectManifestType (path f) \<noteq> None) \<and>
      extractAllPackages (env_JSON_parse ?env) (manifestFilesOf ?f2) = []"
    unfolding m2
    using detect_package_json
    by (simp add: sampleFile_def sampleRuntime_def sampleParse_def
        extractPackagesFromManifest_def extractNpmPackages_def npmSection_def)
  note w1 = action_nothing_to_scan [of ?f1 ?env 0 7]
  note w2 = action_nothing_to_scan [of ?f2 ?env 0 7]
  have a: "success (fst (fst (action ?env 0 7 (Inr (Some ?f1))))) = False"
    using w1 h1 by blast
  have b: "vulnerabilities (fst (fst (action ?env 0 7 (Inr (Some ?f1))))) = []"
    using w1 h1 by blast
  have c: "success (fst (fst (action ?env 0 7 (Inr (Some ?f2))))) = True"
    using w2 h2 by blast
  have d: "stats (fst (fst (action ?env 0 7 (Inr (Some ?f2))))) = zeroStats"
    using w2 h2 by blast
  show ?thesis using a b c d by (intro conjI)
qed

text \<open>
  Claim C3. When a batch query is answered with status 429, the scan waits 2000 ms and
  sends the same query once more, and after that only detail requests belong to the
  batch. When the second answer is not a success either, the batch raises
  \<open>OSV API failed after retry\<close>. An answer with another non-success status raises
  \<open>OSV API request failed\<close> at once: the history ends with the single query. When a
  batch raises, no later batch is queried and the action returns \<open>success = false\<close>
  with the message of the exception.
\<close>

theorem queryOsvBatch_rate_limit:
  "(batchServer net (trace @ [Fetch (BatchQuery (toQueries batch))]) = Response 429 body1 \<longrightarrow>
      (\<exists>ds. snd (queryBatch net m trace batch)
               = trace @ [Fetch (BatchQuery (toQueries batch)), Sleep 2000,
                          Fetch (BatchQuery (toQueries batch))] @ ds
            \<and> list_all isDetailFetch ds)) \<and>
   (batchServer net (trace @ [Fetch (BatchQuery (toQueries batch))]) = Response 429 body1 \<and>
    batchServer net (trace @ [Fetch (BatchQuery (toQueries batch)), Sleep 2000,
                              Fetch (BatchQuery (toQueries batch))]) = Response status2 body2 \<and>
    \<not> okStatus status2 \<longrightarrow>
      queryBatch net m trace batch
        = (Inl (Error ((asc ''OSV API failed after retry: '') @ showNat status2)),
           trace @ [Fetch (BatchQuery (toQueries batch)), Sleep 2000,
                    Fetch (BatchQuery (toQueries batch))])) \<and>
   (batchServer net (trace @ [Fetch (BatchQuery (toQueries batch))]) = Response status1 body1 \<and>
    \<not> okStatus status1 \<and> status1 \<noteq> 429 \<longrightarrow>
      queryBatch net m trace batch
        = (Inl (Error ((asc ''OSV API request failed: '') @ showNat status1)),
           trace @ [Fetch (BatchQuery (toQueries batch))])) \<and>
   (env_network env = net \<and>
    queryBatches net Map.empty [] earlier = (Inr m, trace) \<and>
    queryBatch net m trace batch = (Inl (Error msg), trace1) \<and>
    splitBatches (extractAllPackages (env_JSON_parse env) (manifestFilesOf files))
      = earlier @ batch # later \<longrightarrow>
      action env startTime endTime (Inr (Some files)) =
        ((\<lparr>success = False, vulnerabilities = [], stats = zeroStats, scannedFiles = 0,
           scannedPackages = 0, scanDuration = endTime - startTime,
           error = Some (if msg = [] then (asc ''Unknown error occurred during vulnerability scan'')
                         else msg)\<rparr>, 500), trace1))"
proof (intro conjI impI)
  assume "batchServer net (trace @ [Fetch (BatchQuery (toQueries batch))]) = Response 429 body1"
  then show "\<exists>ds. snd (queryBatch net m trace batch)
               = trace @ [Fetch (BatchQuery (toQueries batch)), Sleep 2000,
                          Fetch (BatchQuery (toQueries batch))] @ ds
            \<and> list_all isDetailFetch ds"
    by (rule queryBatch_rate_limited)
next
  assume "batchServer net (trace @ [Fetch (BatchQuery (toQueries batch))]) = Response 429 body1 \<and>
    batchServer net (trace @ [Fetch (BatchQuery (toQueries batch)), Sleep 2000,
                              Fetch (BatchQuery (toQueries batch))]) = Response status2 body2 \<and>
    \<not> okStatus status2"
  then show "queryBatch net m trace batch
        = (Inl (Error ((asc ''OSV API failed after retry: '') @ showNat status2)),
           trace @ [Fetch (BatchQuery (toQueries batch)), Sleep 2000,
                    Fetch (BatchQuery (toQueries batch))])"
    using queryBatch_retry_failed [of net trace batch body1 status2 body2 m] by (elim conjE)
next
  assume "batchServer net (trace @ [Fetch (BatchQuery (toQueries batch))]) = Response status1 body1 \<and>
    \<not> okStatus status1 \<and> status1 \<noteq> 429"
  then show "queryBatch net m trace batch
        = (Inl (Error ((asc ''OSV API request failed: '') @ showNat status1)),
           trace @ [Fetch (BatchQuery (toQueries batch))])"
    using queryBatch_hard_failure [of net trace batch status1 body1 m] by (elim conjE)
next
  assume a: "env_network env = net \<and>
    queryBatches net Map.empty [] earlier = (Inr m, trace) \<and>
    queryBatch net m trace batch = (Inl (Error msg), trace1) \<and>
    splitBatches (extractAllPackages (env_JSON_parse env) (manifestFilesOf files))
      = earlier @ batch # later"
  then have "queryBatches (env_network env) Map.empty [] earlier = (Inr m, trace)"
    and "queryBatch (env_network env) m trace batch = (Inl (Error msg), trace1)"
    and "splitBatches (extractAllPackages (env_JSON_parse env) (manifestFilesOf files))
      = earlier @ batch # later"
    by simp_all
  then show "action env startTime endTime (Inr (Some files)) =
        ((\<lparr>success = False, vulnerabilities = [], stats = zeroStats, scannedFiles = 0,
           scannedPackages = 0, scanDuration = endTime - startTime,
           error = Some (if msg = [] then (asc ''Unknown error occurred during vulnerability scan'')
                         else msg)\<rparr>, 500), trace1)"
    by (rule action_abort)
qed

theorem queryOsvBatch_rate_limit_witness:
  "action (sampleRuntime (failingNetwork 429)) 0 7
     (Inr (Some [sampleFile (asc ''package.json'') (asc ''{deps}'')])) =
     ((\<lparr>success = False, vulnerabilities = [], stats = zeroStats, scannedFiles = 0,
        scannedPackages = 0, scanDuration = 7,
        error = Some (asc ''OSV API failed after retry: 429'')\<rparr>, 500),
      [Fetch (BatchQuery (toQueries samplePackages)), Sleep 2000,
       Fetch (BatchQuery (toQueries samplePackages))]) \<and>
   action (sampleRuntime (failingNetwork 503)) 0 7
     (Inr (Some [sampleFile (asc ''package.json'') (asc ''{deps}'')])) =
     ((\<lparr>success = False, vulnerabilities = [], stats = zeroStats, scannedFiles = 0,
        scannedPackages = 0, scanDuration = 7,
        error = Some (asc ''OSV API request failed: 503'')\<rparr>, 500),
      [Fetch (BatchQuery (toQueries samplePackages))])"
proof -
  let ?q = "Fetch (BatchQuery (toQueries samplePackages))"
  let ?files = "[sampleFile (asc ''package.json'') (asc ''{deps}'')]"
  have s: "splitBatches (extractAllPackages (env_JSON_parse (sampleRuntime net)) (manifestFilesOf ?files))
      = [] @ samplePackages # []" for net
    by (simp only: sample_manifest sample_packages sample_batches sampleRuntime_def
        Runtime.simps)
  have n: "env_network (sampleRuntime net) = net" for net by (simp add: sampleRuntime_def)
  have e: "queryBatches net Map.empty [] [] = (Inr Map.empty, [])" for net by simp
  have r1: "batchServer (failingNetwork 429) ([] @ [?q]) = Response 429 (Inl (asc ''unavailable''))"
    by (simp add: failingNetwork_def)
  have r2: "batchServer (failingNetwork 429) ([] @ [?q, Sleep 2000, ?q])
      = Response 429 (Inl (asc ''unavailable''))"
    by (simp add: failingNetwork_def)
  have k: "\<not> okStatus 429" "\<not> okStatus 503" "(503::nat) \<noteq> 429" by (simp_all add: okStatus_def)
  note w1 = queryOsvBatch_rate_limit [of "failingNetwork 429" "[]" samplePackages
      "Inl (asc ''unavailable'')" Map.empty 429 "Inl (asc ''unavailable'')" 0
      "sampleRuntime (failingNetwork 429)" "[]"
      "(asc ''OSV API failed after retry: '') @ showNat 429" "[] @ [?q, Sleep 2000, ?q]" ?files "[]" 0 7]
  have q1: "queryBatch (failingNetwork 429) Map.empty [] samplePackages
      = (Inl (Error ((asc ''OSV API failed after retry: '') @ showNat 429)), [] @ [?q, Sleep 2000, ?q])"
    using w1 r1 r2 k(1) by blast
  have a1: "action (sampleRuntime (failingNetwork 429)) 0 7 (Inr (Some ?files)) =
     ((\<lparr>success = False, vulnerabilities = [], stats = zeroStats, scannedFiles = 0,
        scannedPackages = 0, scanDuration = 7 - 0,
        error = Some (if (asc ''OSV API failed after retry: '') @ showNat 429 = []
                      then (asc ''Unknown error occurred during vulnerability scan'')
                      else (asc ''OSV API failed after retry: '') @ showNat 429)\<rparr>, 500),
      [] @ [?q, Sleep 2000, ?q])"
    using w1 n [of "failingNetwork 429"] e [of "failingNetwork 429"] q1
      s [of "failingNetwork 429"] by blast
  have r3: "batchServer (failingNetwork 503) ([] @ [?q]) = Response 503 (Inl (asc ''unavailable''))"
    by (simp add: failingNetwork_def)
  note w2 = queryOsvBatch_rate_limit [of "failingNetwork 503" "[]" samplePackages
      "Inl (asc ''unavailable'')" Map.empty 0 "Inl (asc ''unavailable'')" 503
      "sampleRuntime (failingNetwork 503)" "[]"
      "(asc ''OSV API request failed: '') @ showNat 503" "[] @ [?q]" ?files "[]" 0 7]
  have q2: "queryBatch (failingNetwork 503) Map.empty [] samplePackages
      = (Inl (Error ((asc ''OSV API request failed: '') @ showNat 503)), [] @ [?q])"
    using w2 r3 k(2,3) by blast
  have a2: "action (sampleRuntime (failingNetwork 503)) 0 7 (Inr (Some ?files)) =
     ((\<lparr>success = False, vulnerabilities = [], stats = zeroStats, scannedFiles = 0,
        scannedPackages = 0, scanDuration = 7 - 0,
        error = Some (if (asc ''OSV API request failed: '') @ showNat 503 = []
                      then (asc ''Unknown error occurred during vulnerability scan'')
                      else (asc ''OSV API request failed: '') @ showNat 503)\<rparr>, 500),
      [] @ [?q])"
    using w2 n [of "failingNetwork 503"] e [of "failingNetwork 503"] q2
      s [of "failingNetwork 503"] by blast
  show ?thesis using a1 a2 by (simp add: showNat_429 showNat_503)
qed

text \<open>
  Claim C10. In every result of the action \<open>stats.total\<close> is the length of the list of
  vulnerabilities and the sum of the four severity counters: no vulnerability is
  \<open>UNKNOWN\<close>.
\<close>

theorem action_stats_total:
  "total (stats (fst (fst (action env startTime endTime body))))
     = length (vulnerabilities (fst (fst (action env startTime endTime body)))) \<and>
   total (stats (fst (fst (action env startTime endTime body))))
     = critical (stats (fst (fst (action env startTime endTime body))))
       + high (stats (fst (fst (action env startTime endTime body))))
       + medium (stats (fst (fst (action env startTime endTime body))))
       + low (stats (fst (fst (action env startTime endTime body))))"
  using action_stats [of env startTime endTime body] by (simp add: statsConsistent_def)

theorem action_stats_total_witness:
  "stats (fst (fst (action (sampleRuntime sampleNetwork) 0 7
      (Inr (Some [sampleFile (asc ''package.json'') (asc ''{deps}'')])))))
     = \<lparr>total = 1, critical = 0, high = 1, medium = 0, low = 0\<rparr> \<and>
   length (vulnerabilities (fst (fst (action (sampleRuntime sampleNetwork) 0 7
      (Inr (Some [sampleFile (asc ''package.json'') (asc ''{deps}'')]))))))
     = 1"
proof -
  let ?r = "fst (fst (action (sampleRuntime sampleNetwork) 0 7
      (Inr (Some [sampleFile (asc ''package.json'') (asc ''{deps}'')]))))"
  have p: "samplePackages \<noteq> []" by (simp add: samplePackages_def)
  have r: "?r = \<lparr>success = True,
      vulnerabilities = [convertOsvVulnerability (\<lambda>s. NaN) sampleVulnerability (hd samplePackages)],
      stats = calculateStats
        [convertOsvVulnerability (\<lambda>s. NaN) sampleVulnerability (hd samplePackages)],
      scannedFiles = 1, scannedPackages = length samplePackages, scanDuration = 7,
      error = None\<rparr>"
    using p
    by (simp add: action_def sample_manifest [unfolded asc_def list.map]
        sample_packages [unfolded asc_def list.map] sampleRuntime_def sample_scan
        del: extractAllPackages.simps)
  have s: "stats ?r = \<lparr>total = 1, critical = 0, high = 1, medium = 0, low = 0\<rparr>"
    unfolding r by (simp add: calculateStats_def sample_severity)
  have "total (stats ?r) = length (vulnerabilities ?r)"
    using action_stats_total [of "sampleRuntime sampleNetwork" 0 7
        "Inr (Some [sampleFile (asc ''package.json'') (asc ''{deps}'')])"]
    by (rule conjunct1)
  then have l: "length (vulnerabilities ?r) = 1" unfolding s by simp
  show ?thesis using s l by (intro conjI)
qed

end
